theory Spec2Isabelle
  imports Complex_Main
begin

section \<open>Go primitives used by the load balancer\<close>

text \<open>
  A backend is an address string used only as a map key. A \<open>time.Time\<close> is modelled by
  its reading of the monotonic clock in nanoseconds; every call that reads the clock
  (\<open>time.Now\<close>, \<open>time.Since\<close>) takes that reading as an explicit argument.

  A \<open>float64\<close> is modelled by a rational number. The policies only compare running
  means with \<open><\<close> and \<open>==\<close>, add them up and divide by a positive length; NaN cannot arise
  (every sample is a finite duration), so the order is total as it is on the rationals.
  Rounding of the quotient is abstracted away.
\<close>

type_synonym time = int
type_synonym float64 = rat

datatype error = IndexOutOfRange | BlocksForever

text \<open>Go's \<open>int\<close> is 64 bits wide; \<open>int(^uint(0) >> 1)\<close> is its largest value.\<close>

definition max_int :: int where
  "max_int = 2 ^ 63 - 1"

definition min_int :: int where
  "min_int = - (2 ^ 63)"

text \<open>\<open>x++\<close> and \<open>x--\<close> on a Go \<open>int\<close>, with the wrap-around at the ends of the range.\<close>

definition int_incr :: "int \<Rightarrow> int" where
  "int_incr c = (if c = max_int then min_int else c + 1)"

definition int_decr :: "int \<Rightarrow> int" where
  "int_decr c = (if c = min_int then max_int else c - 1)"

text \<open>
  Go's \<open>%\<close> truncates towards zero: the result has the sign of the dividend. The cursors
  it is applied to stay below \<open>len(servers)\<close>, itself an \<open>int\<close>, so \<open>cursor + 1\<close> never
  wraps and the cursors are plain integers here.
\<close>

definition go_rem :: "int \<Rightarrow> int \<Rightarrow> int" where
  "go_rem a b = sgn a * (\<bar>a\<bar> mod \<bar>b\<bar>)"

text \<open>Reading a Go map at a missing key yields the zero value of the element type.\<close>

definition map_get :: "(string \<rightharpoonup> 'a::zero) \<Rightarrow> string \<Rightarrow> 'a" where
  "map_get m k = (case m k of None \<Rightarrow> 0 | Some v \<Rightarrow> v)"

text \<open>
  A buffered channel \<open>make(chan time.Time, 10000)\<close> is the list of the values it holds,
  oldest first. \<open>try_send\<close> and \<open>try_recv\<close> are the two cases of a \<open>select\<close> that has a
  \<open>default\<close> branch: \<open>None\<close> means the case was not ready.
\<close>

definition chan_cap :: nat where
  "chan_cap = 10000"

definition try_send :: "time list \<Rightarrow> time \<Rightarrow> time list option" where
  "try_send ch v = (if length ch < chan_cap then Some (ch @ [v]) else None)"

definition try_recv :: "time list \<Rightarrow> (time \<times> time list) option" where
  "try_recv ch = (case ch of [] \<Rightarrow> None | v # rest \<Rightarrow> Some (v, rest))"

section \<open>The policies\<close>

subsection \<open>N2One\<close>

record N2One =
  n2o_servers :: "string list"

definition NewN2One :: "string list \<Rightarrow> N2One" where
  "NewN2One servers = \<lparr>n2o_servers = servers\<rparr>"

definition N2One_SelectServer :: "N2One \<Rightarrow> error + (string \<times> N2One)" where
  "N2One_SelectServer p =
     (case n2o_servers p of [] \<Rightarrow> Inl IndexOutOfRange | s # _ \<Rightarrow> Inr (s, p))"

definition N2One_Update :: "N2One \<Rightarrow> string \<Rightarrow> N2One" where
  "N2One_Update p server = p"

subsection \<open>RoundRobin\<close>

record RoundRobin =
  rr_servers :: "string list"
  rr_idx :: int

definition NewRoundRobin :: "string list \<Rightarrow> RoundRobin" where
  "NewRoundRobin servers = \<lparr>rr_servers = servers, rr_idx = 0\<rparr>"

definition RoundRobin_SelectServer :: "RoundRobin \<Rightarrow> error + (string \<times> RoundRobin)" where
  "RoundRobin_SelectServer p =
     (if 0 \<le> rr_idx p \<and> rr_idx p < int (length (rr_servers p))
      then Inr (rr_servers p ! nat (rr_idx p),
                p\<lparr>rr_idx := go_rem (rr_idx p + 1) (int (length (rr_servers p)))\<rparr>)
      else Inl IndexOutOfRange)"

definition RoundRobin_Update :: "RoundRobin \<Rightarrow> string \<Rightarrow> RoundRobin" where
  "RoundRobin_Update p server = p"

subsection \<open>LeastConnections\<close>

record LeastConnections =
  lc_servers :: "string list"
  lc_connections :: "string \<rightharpoonup> int"

text \<open>The constructor's loop \<open>conn[s] = 0\<close> over the servers.\<close>

definition NewLeastConnections :: "string list \<Rightarrow> LeastConnections" where
  "NewLeastConnections servers =
     \<lparr>lc_servers = servers,
      lc_connections = fold (\<lambda>s conn. conn(s \<mapsto> 0)) servers Map.empty\<rparr>"

text \<open>
  The scan of \<open>SelectServer\<close>: the pair is \<open>(min, selected)\<close>, replaced only by a strictly
  smaller count.
\<close>

definition lc_scan_step :: "(string \<rightharpoonup> int) \<Rightarrow> string \<Rightarrow> int \<times> string \<Rightarrow> int \<times> string" where
  "lc_scan_step conn s acc =
     (if map_get conn s < fst acc then (map_get conn s, s) else acc)"

definition lc_scan :: "(string \<rightharpoonup> int) \<Rightarrow> string list \<Rightarrow> int \<times> string" where
  "lc_scan conn servers = fold (lc_scan_step conn) servers (max_int, [])"

definition LeastConnections_SelectServer ::
  "LeastConnections \<Rightarrow> string \<times> LeastConnections" where
  "LeastConnections_SelectServer p =
     (let selected = snd (lc_scan (lc_connections p) (lc_servers p))
      in (selected,
          p\<lparr>lc_connections :=
              (lc_connections p)(selected \<mapsto> int_incr (map_get (lc_connections p) selected))\<rparr>))"

definition LeastConnections_Update :: "LeastConnections \<Rightarrow> string \<Rightarrow> LeastConnections" where
  "LeastConnections_Update p server =
     (case lc_connections p server of
        None \<Rightarrow> p
      | Some c \<Rightarrow>
          (if c > 0 then p\<lparr>lc_connections := (lc_connections p)(server \<mapsto> int_decr c)\<rparr>
           else p))"

subsection \<open>LeastResponseTime\<close>

record LeastResponseTime =
  lrt_servers :: "string list"
  lrt_avgTime :: "string \<rightharpoonup> float64"
  lrt_startTimes :: "string \<rightharpoonup> time list"
  lrt_pastTimes :: "string \<rightharpoonup> float64 list"
  lrt_current :: int

definition NewLeastResponseTime :: "string list \<Rightarrow> LeastResponseTime" where
  "NewLeastResponseTime servers =
     \<lparr>lrt_servers = servers,
      lrt_avgTime = fold (\<lambda>s m. m(s \<mapsto> 0)) servers Map.empty,
      lrt_startTimes = fold (\<lambda>s m. m(s \<mapsto> [])) servers Map.empty,
      lrt_pastTimes = fold (\<lambda>s m. m(s \<mapsto> [])) servers Map.empty,
      lrt_current = - 1\<rparr>"

text \<open>Phase (a): the scan for the minimal running mean, started at \<open>servers[0]\<close>.\<close>

definition lrt_scan_step ::
  "(string \<rightharpoonup> float64) \<Rightarrow> string \<Rightarrow> float64 \<times> string \<Rightarrow> float64 \<times> string" where
  "lrt_scan_step avg s acc =
     (if map_get avg s < fst acc then (map_get avg s, s) else acc)"

definition lrt_scan :: "(string \<rightharpoonup> float64) \<Rightarrow> string list \<Rightarrow> string \<Rightarrow> float64 \<times> string" where
  "lrt_scan avg servers first = fold (lrt_scan_step avg) servers (map_get avg first, first)"

text \<open>
  Phase (b): the loop \<open>for range len(p.servers)\<close>. The first argument counts the
  iterations that are left; the result is the cursor at the \<open>break\<close> or after the last
  iteration. Indexing \<open>p.servers\<close> outside its bounds panics.
\<close>

fun lrt_advance ::
  "nat \<Rightarrow> string list \<Rightarrow> (string \<rightharpoonup> float64) \<Rightarrow> string \<Rightarrow> int \<Rightarrow> error + int" where
  "lrt_advance 0 servers avg selected cur = Inr cur"
| "lrt_advance (Suc k) servers avg selected cur =
     (let cur' = go_rem (cur + 1) (int (length servers))
      in if cur' < 0 \<or> int (length servers) \<le> cur' then Inl IndexOutOfRange
         else if map_get avg (servers ! nat cur') = map_get avg selected then Inr cur'
         else lrt_advance k servers avg selected cur')"

text \<open>
  The push of the start time. The outer \<open>select\<close> tries to send; its \<open>default\<close> branch
  drains one value if there is one and then sends unconditionally. That last send, and
  any send on the nil channel of a missing key, would block with the mutex held.
\<close>

definition lrt_push :: "time list option \<Rightarrow> time \<Rightarrow> error + time list" where
  "lrt_push chan now =
     (case chan of
        None \<Rightarrow> Inl BlocksForever
      | Some ch \<Rightarrow>
          (case try_send ch now of
             Some ch' \<Rightarrow> Inr ch'
           | None \<Rightarrow>
               (let drained = (case try_recv ch of Some (_, rest) \<Rightarrow> rest | None \<Rightarrow> ch)
                in case try_send drained now of
                     Some ch' \<Rightarrow> Inr ch'
                   | None \<Rightarrow> Inl BlocksForever)))"

text \<open>
  \<open>SelectServer\<close> in two steps. The first is what runs between \<open>p.mu.Lock()\<close> and
  \<open>p.mu.Unlock()\<close>: the scan, the loop and the push. The second is the \<open>return\<close>
  statement, which reads \<open>p.servers[p.current]\<close> after the mutex has been released, from
  the state as it is at that moment.
\<close>

definition LeastResponseTime_SelectServer_locked ::
  "LeastResponseTime \<Rightarrow> time \<Rightarrow> error + LeastResponseTime" where
  "LeastResponseTime_SelectServer_locked p now =
     (case lrt_servers p of
        [] \<Rightarrow> Inl IndexOutOfRange
      | first # _ \<Rightarrow>
          (let selected = snd (lrt_scan (lrt_avgTime p) (lrt_servers p) first)
           in case lrt_advance (length (lrt_servers p)) (lrt_servers p) (lrt_avgTime p)
                     selected (lrt_current p) of
                Inl e \<Rightarrow> Inl e
              | Inr cur \<Rightarrow>
                  (if cur < 0 \<or> int (length (lrt_servers p)) \<le> cur then Inl IndexOutOfRange
                   else
                     (let target = lrt_servers p ! nat cur
                      in case lrt_push (lrt_startTimes p target) now of
                           Inl e \<Rightarrow> Inl e
                         | Inr ch \<Rightarrow>
                             Inr (p\<lparr>lrt_startTimes := (lrt_startTimes p)(target \<mapsto> ch),
                                    lrt_current := cur\<rparr>)))))"

definition LeastResponseTime_SelectServer_return :: "LeastResponseTime \<Rightarrow> error + string" where
  "LeastResponseTime_SelectServer_return p =
     (if lrt_current p < 0 \<or> int (length (lrt_servers p)) \<le> lrt_current p
      then Inl IndexOutOfRange
      else Inr (lrt_servers p ! nat (lrt_current p)))"

text \<open>A call that no other call on the same policy comes between.\<close>

definition LeastResponseTime_SelectServer ::
  "LeastResponseTime \<Rightarrow> time \<Rightarrow> error + (string \<times> LeastResponseTime)" where
  "LeastResponseTime_SelectServer p now =
     (case LeastResponseTime_SelectServer_locked p now of
        Inl e \<Rightarrow> Inl e
      | Inr p' \<Rightarrow>
          (case LeastResponseTime_SelectServer_return p' of
             Inl e \<Rightarrow> Inl e
           | Inr b \<Rightarrow> Inr (b, p')))"

text \<open>
  Calls from several goroutines, one per connection: the steps of the calls in the
  order in which they happen, on the shared state. The result lists what the \<open>return\<close>
  statements yield, in that order.
\<close>

datatype lrt_step = Locked time | Return

fun lrt_interleaved ::
  "LeastResponseTime \<Rightarrow> lrt_step list \<Rightarrow> error + (string list \<times> LeastResponseTime)" where
  "lrt_interleaved p [] = Inr ([], p)"
| "lrt_interleaved p (Locked now # steps) =
     (case LeastResponseTime_SelectServer_locked p now of
        Inl e \<Rightarrow> Inl e
      | Inr p' \<Rightarrow> lrt_interleaved p' steps)"
| "lrt_interleaved p (Return # steps) =
     (case LeastResponseTime_SelectServer_return p of
        Inl e \<Rightarrow> Inl e
      | Inr b \<Rightarrow>
          (case lrt_interleaved p steps of
             Inl e \<Rightarrow> Inl e
           | Inr (bs, p') \<Rightarrow> Inr (b # bs, p')))"

text \<open>\<open>time.Since(start).Seconds()\<close>, the clock being read at \<open>now\<close>.\<close>

definition seconds_since :: "time \<Rightarrow> time \<Rightarrow> float64" where
  "seconds_since now start = of_int (now - start) / 1000000000"

definition slice_get :: "(string \<rightharpoonup> float64 list) \<Rightarrow> string \<Rightarrow> float64 list" where
  "slice_get m k = (case m k of None \<Rightarrow> [] | Some xs \<Rightarrow> xs)"

definition mean :: "float64 list \<Rightarrow> float64" where
  "mean xs = foldl (+) 0 xs / of_nat (length xs)"

definition LeastResponseTime_Update ::
  "LeastResponseTime \<Rightarrow> string \<Rightarrow> time \<Rightarrow> LeastResponseTime" where
  "LeastResponseTime_Update p server now =
     (case lrt_startTimes p server of
        None \<Rightarrow> p
      | Some ch \<Rightarrow>
          (case try_recv ch of
             None \<Rightarrow> p
           | Some (start, rest) \<Rightarrow>
               (let past = slice_get (lrt_pastTimes p) server @ [seconds_since now start]
                in p\<lparr>lrt_startTimes := (lrt_startTimes p)(server \<mapsto> rest),
                     lrt_pastTimes := (lrt_pastTimes p)(server \<mapsto> past),
                     lrt_avgTime := (lrt_avgTime p)(server \<mapsto> mean past)\<rparr>)))"

subsection \<open>The Policy interface\<close>

datatype policy =
    PN2One N2One
  | PRoundRobin RoundRobin
  | PLeastConnections LeastConnections
  | PLeastResponseTime LeastResponseTime

fun SelectServer :: "policy \<Rightarrow> time \<Rightarrow> error + (string \<times> policy)" where
  "SelectServer (PN2One p) now = map_sum id (map_prod id PN2One) (N2One_SelectServer p)"
| "SelectServer (PRoundRobin p) now =
     map_sum id (map_prod id PRoundRobin) (RoundRobin_SelectServer p)"
| "SelectServer (PLeastConnections p) now =
     Inr (map_prod id PLeastConnections (LeastConnections_SelectServer p))"
| "SelectServer (PLeastResponseTime p) now =
     map_sum id (map_prod id PLeastResponseTime) (LeastResponseTime_SelectServer p now)"

fun Update :: "policy \<Rightarrow> string \<Rightarrow> time \<Rightarrow> policy" where
  "Update (PN2One p) server now = PN2One (N2One_Update p server)"
| "Update (PRoundRobin p) server now = PRoundRobin (RoundRobin_Update p server)"
| "Update (PLeastConnections p) server now = PLeastConnections (LeastConnections_Update p server)"
| "Update (PLeastResponseTime p) server now =
     PLeastResponseTime (LeastResponseTime_Update p server now)"

text \<open>
  A serialized history of calls on one policy instance, each with the clock reading
  it sees. \<open>run\<close> returns the selections in order and the final state, or the panic.
\<close>

datatype call = Select time | Upd string time

fun run :: "policy \<Rightarrow> call list \<Rightarrow> error + (string list \<times> policy)" where
  "run p [] = Inr ([], p)"
| "run p (Select now # cs) =
     (case SelectServer p now of
        Inl e \<Rightarrow> Inl e
      | Inr (b, p') \<Rightarrow>
          (case run p' cs of Inl e \<Rightarrow> Inl e | Inr (bs, p'') \<Rightarrow> Inr (b # bs, p'')))"
| "run p (Upd server now # cs) = run (Update p server now) cs"

fun is_select :: "call \<Rightarrow> bool" where
  "is_select (Select now) = True"
| "is_select (Upd server now) = False"

section \<open>Scenarios and histories\<close>

text \<open>
  The loop of \<open>TestLeastConnectionsUpdate\<close> and \<open>TestLeastResponseTimeUpdate\<close>: eight
  iterations, each a \<open>SelectServer\<close>, the last four followed by an \<open>Update\<close> of the next
  peer that \<open>releaseSocket\<close> yields (\<open>b0\<close>, \<open>b3\<close>, \<open>b2\<close>, then \<open>b0\<close> again). \<open>t i\<close> and \<open>u i\<close>
  are the clock readings of the two calls of iteration \<open>i\<close>.
\<close>

definition update_scenario ::
  "string \<Rightarrow> string \<Rightarrow> string \<Rightarrow> (nat \<Rightarrow> time) \<Rightarrow> (nat \<Rightarrow> time) \<Rightarrow> call list" where
  "update_scenario b0 b2 b3 t u =
     [Select (t 0), Select (t 1), Select (t 2), Select (t 3),
      Select (t 4), Upd b0 (u 4), Select (t 5), Upd b3 (u 5),
      Select (t 6), Upd b2 (u 6), Select (t 7), Upd b0 (u 7)]"

text \<open>
  A LeastConnections history with what each call observed: the backend a selection
  returned, and the count an \<open>Update\<close> found for its argument before acting.
\<close>

datatype event = Selected string | Updated string int

fun lc_run :: "LeastConnections \<Rightarrow> call list \<Rightarrow> event list \<times> LeastConnections" where
  "lc_run p [] = ([], p)"
| "lc_run p (Select now # cs) =
     (let (b, p') = LeastConnections_SelectServer p;
          (es, p'') = lc_run p' cs
      in (Selected b # es, p''))"
| "lc_run p (Upd server now # cs) =
     (let (es, p'') = lc_run (LeastConnections_Update p server) cs
      in (Updated server (map_get (lc_connections p) server) # es, p''))"

fun is_selection :: "string \<Rightarrow> event \<Rightarrow> bool" where
  "is_selection b (Selected s) = (s = b)"
| "is_selection b (Updated s c) = False"

fun is_effective_update :: "string \<Rightarrow> event \<Rightarrow> bool" where
  "is_effective_update b (Selected s) = False"
| "is_effective_update b (Updated s c) = (s = b \<and> c > 0)"

definition selections :: "event list \<Rightarrow> string \<Rightarrow> nat" where
  "selections es b = length (filter (is_selection b) es)"

definition effective_updates :: "event list \<Rightarrow> string \<Rightarrow> nat" where
  "effective_updates es b = length (filter (is_effective_update b) es)"

fun selected_backends :: "event list \<Rightarrow> string list" where
  "selected_backends [] = []"
| "selected_backends (Selected s # es) = s # selected_backends es"
| "selected_backends (Updated s c # es) = selected_backends es"

text \<open>
  The counts of a LeastConnections policy over \<open>servers\<close> are within the range of a
  non-negative \<open>int\<close>.
\<close>

definition lc_inv :: "string list \<Rightarrow> LeastConnections \<Rightarrow> bool" where
  "lc_inv servers p \<longleftrightarrow>
     lc_servers p = servers \<and>
     (\<forall>b \<in> set servers.
        0 \<le> map_get (lc_connections p) b \<and> map_get (lc_connections p) b \<le> max_int)"

section \<open>Policy states\<close>

text \<open>
  The states a policy instance is in between two calls: the pool is not empty, a
  cursor is within the pool (\<open>-1\<close> being the initial value of the tie-break cursor), the
  maps that the constructors fill have exactly the pool as their keys, the counts are
  non-negative and below the largest \<open>int\<close>, and no channel holds more than its capacity.
\<close>

definition N2One_wf :: "N2One \<Rightarrow> bool" where
  "N2One_wf p \<longleftrightarrow> n2o_servers p \<noteq> []"

definition RoundRobin_wf :: "RoundRobin \<Rightarrow> bool" where
  "RoundRobin_wf p \<longleftrightarrow> 0 \<le> rr_idx p \<and> rr_idx p < int (length (rr_servers p))"

definition LeastConnections_wf :: "LeastConnections \<Rightarrow> bool" where
  "LeastConnections_wf p \<longleftrightarrow>
     lc_servers p \<noteq> [] \<and>
     dom (lc_connections p) = set (lc_servers p) \<and>
     (\<forall>b \<in> set (lc_servers p).
        0 \<le> map_get (lc_connections p) b \<and> map_get (lc_connections p) b < max_int)"

definition LeastResponseTime_wf :: "LeastResponseTime \<Rightarrow> bool" where
  "LeastResponseTime_wf p \<longleftrightarrow>
     lrt_servers p \<noteq> [] \<and>
     - 1 \<le> lrt_current p \<and> lrt_current p < int (length (lrt_servers p)) \<and>
     dom (lrt_startTimes p) = set (lrt_servers p) \<and>
     (\<forall>b \<in> set (lrt_servers p). length (the (lrt_startTimes p b)) \<le> chan_cap)"

text \<open>LeastConnections after at most \<open>k\<close> selections: no count exceeds \<open>k\<close>.\<close>

definition lc_bounded :: "int \<Rightarrow> LeastConnections \<Rightarrow> bool" where
  "lc_bounded k p \<longleftrightarrow>
     lc_servers p \<noteq> [] \<and>
     dom (lc_connections p) = set (lc_servers p) \<and>
     (\<forall>b \<in> set (lc_servers p).
        0 \<le> map_get (lc_connections p) b \<and> map_get (lc_connections p) b \<le> k)"

fun policy_wf :: "policy \<Rightarrow> bool" where
  "policy_wf (PN2One p) = N2One_wf p"
| "policy_wf (PRoundRobin p) = RoundRobin_wf p"
| "policy_wf (PLeastConnections p) = LeastConnections_wf p"
| "policy_wf (PLeastResponseTime p) = LeastResponseTime_wf p"

text \<open>The parts of a policy state: the pool, the cursor, and what is kept per backend.\<close>

fun pool :: "policy \<Rightarrow> string list" where
  "pool (PN2One p) = n2o_servers p"
| "pool (PRoundRobin p) = rr_servers p"
| "pool (PLeastConnections p) = lc_servers p"
| "pool (PLeastResponseTime p) = lrt_servers p"

fun cursor :: "policy \<Rightarrow> int option" where
  "cursor (PN2One p) = None"
| "cursor (PRoundRobin p) = Some (rr_idx p)"
| "cursor (PLeastConnections p) = None"
| "cursor (PLeastResponseTime p) = Some (lrt_current p)"

datatype per_backend =
    NoBackendState
  | ConnectionCount "int option"
  | ResponseTimes "time list option" "float64 list option" "float64 option"

fun backend_state :: "policy \<Rightarrow> string \<Rightarrow> per_backend" where
  "backend_state (PN2One p) b = NoBackendState"
| "backend_state (PRoundRobin p) b = NoBackendState"
| "backend_state (PLeastConnections p) b = ConnectionCount (lc_connections p b)"
| "backend_state (PLeastResponseTime p) b =
     ResponseTimes (lrt_startTimes p b) (lrt_pastTimes p b) (lrt_avgTime p b)"

text \<open>The variants whose \<open>Update\<close> undoes what their \<open>SelectServer\<close> did.\<close>

fun compensating :: "policy \<Rightarrow> bool" where
  "compensating (PN2One p) = True"
| "compensating (PRoundRobin p) = False"
| "compensating (PLeastConnections p) = True"
| "compensating (PLeastResponseTime p) = False"

section \<open>The connection proxy\<close>

text \<open>
  \<open>handleClient\<close> as far as the policy sees it: the selection, then one \<open>Update\<close> of the
  selected backend, at once when \<open>net.Dial\<close> fails and after both copy directions have
  finished otherwise. \<open>dial\<close> tells whether the backend can be reached.
\<close>

definition handleClient ::
  "policy \<Rightarrow> (string \<Rightarrow> bool) \<Rightarrow> time \<Rightarrow> time \<Rightarrow> error + policy" where
  "handleClient policy dial now now' =
     (case SelectServer policy now of
        Inl e \<Rightarrow> Inl e
      | Inr (backend, policy') \<Rightarrow>
          (if \<not> dial backend then Inr (Update policy' backend now')
           else Inr (Update policy' backend now')))"

section \<open>The two phases of LeastResponseTime, as the specification words them\<close>

definition running_mean :: "LeastResponseTime \<Rightarrow> string \<Rightarrow> float64" where
  "running_mean p b = map_get (lrt_avgTime p) b"

text \<open>Phase (a): the minimal running mean over the pool.\<close>

definition pool_minimum :: "LeastResponseTime \<Rightarrow> float64" where
  "pool_minimum p = Min (set (map (running_mean p) (lrt_servers p)))"

text \<open>
  Phase (b): the positions the rotating cursor visits, from the one after its previous
  position, wrapping around the pool, and the first of them whose backend has the
  minimal running mean.
\<close>

definition cursor_order :: "LeastResponseTime \<Rightarrow> nat list" where
  "cursor_order p = rotate (nat (lrt_current p + 1)) [0..<length (lrt_servers p)]"

definition spec_SelectServer :: "LeastResponseTime \<Rightarrow> nat option" where
  "spec_SelectServer p =
     find (\<lambda>i. running_mean p (lrt_servers p ! i) = pool_minimum p) (cursor_order p)"

section \<open>Startup\<close>

text \<open>
  \<open>strings.Fields\<close> splits a text around the runs of white space, as \<open>unicode.IsSpace\<close>
  defines it, and returns the pieces that are not empty. A Go string is a sequence of
  bytes in UTF-8. \<open>white_space\<close> lists the encodings of the white-space code points:
  \<open>'\t'\<close>, \<open>'\n'\<close>, \<open>'\v'\<close>, \<open>'\f'\<close>, \<open>'\r'\<close>, \<open>' '\<close>, U+0085, U+00A0, U+1680, U+2000 to
  U+200A, U+2028, U+2029, U+202F, U+205F and U+3000. Each of the longer encodings
  starts with a lead byte, which the decoder never takes as part of another code
  point, so looking for them byte by byte finds exactly the code points it decodes.
\<close>

definition white_space :: "string list" where
  "white_space =
     [[CHR 0x09], [CHR 0x0A], [CHR 0x0B], [CHR 0x0C], [CHR 0x0D], [CHR 0x20],
      [CHR 0xC2, CHR 0x85], [CHR 0xC2, CHR 0xA0], [CHR 0xE1, CHR 0x9A, CHR 0x80],
      [CHR 0xE2, CHR 0x80, CHR 0x80], [CHR 0xE2, CHR 0x80, CHR 0x81],
      [CHR 0xE2, CHR 0x80, CHR 0x82], [CHR 0xE2, CHR 0x80, CHR 0x83],
      [CHR 0xE2, CHR 0x80, CHR 0x84], [CHR 0xE2, CHR 0x80, CHR 0x85],
      [CHR 0xE2, CHR 0x80, CHR 0x86], [CHR 0xE2, CHR 0x80, CHR 0x87],
      [CHR 0xE2, CHR 0x80, CHR 0x88], [CHR 0xE2, CHR 0x80, CHR 0x89],
      [CHR 0xE2, CHR 0x80, CHR 0x8A], [CHR 0xE2, CHR 0x80, CHR 0xA8],
      [CHR 0xE2, CHR 0x80, CHR 0xA9], [CHR 0xE2, CHR 0x80, CHR 0xAF],
      [CHR 0xE2, CHR 0x81, CHR 0x9F], [CHR 0xE3, CHR 0x80, CHR 0x80]]"

text \<open>The number of bytes of the white-space code point a text starts with, or 0.\<close>

definition space_width :: "string \<Rightarrow> nat" where
  "space_width s =
     (case find (\<lambda>w. take (length w) s = w) white_space of
        None \<Rightarrow> 0
      | Some w \<Rightarrow> length w)"

text \<open>
  The scan keeps the piece read so far and the number of bytes still to skip of a
  white-space code point.
\<close>

fun Fields_from :: "string \<Rightarrow> nat \<Rightarrow> string \<Rightarrow> string list" where
  "Fields_from tok skip [] = (if tok = [] then [] else [tok])"
| "Fields_from tok skip (c # cs) =
     (if 0 < skip then Fields_from tok (skip - 1) cs
      else if 0 < space_width (c # cs)
        then (if tok = [] then Fields_from [] (space_width (c # cs) - 1) cs
              else tok # Fields_from [] (space_width (c # cs) - 1) cs)
      else Fields_from (tok @ [c]) 0 cs)"

definition Fields :: "string \<Rightarrow> string list" where
  "Fields s = Fields_from [] 0 s"

text \<open>
  The command line after \<open>flag.Parse\<close>: a flag that is not given keeps its default
  (\<open>"RoundRobin"\<close>, \<open>8080\<close>, \<open>""\<close>).
\<close>

record flags =
  flag_a :: "string option"
  flag_p :: "int option"
  flag_s :: "string option"

datatype fatal = NoBackendServers | UnknownPolicy string | FailedToListen int

datatype startup = Fatalf fatal | AcceptLoop policy

definition new_policy :: "string \<Rightarrow> string list \<Rightarrow> policy option" where
  "new_policy policyName servers =
     (if policyName = ''N2One'' then Some (PN2One (NewN2One servers))
      else if policyName = ''RoundRobin'' then Some (PRoundRobin (NewRoundRobin servers))
      else if policyName = ''LeastConnections''
        then Some (PLeastConnections (NewLeastConnections servers))
      else if policyName = ''LeastResponseTime''
        then Some (PLeastResponseTime (NewLeastResponseTime servers))
      else None)"

text \<open>
  \<open>main\<close> up to the accept loop. \<open>listen\<close> tells whether \<open>net.Listen\<close> succeeds on a port.
\<close>

definition main_startup :: "flags \<Rightarrow> (int \<Rightarrow> bool) \<Rightarrow> startup" where
  "main_startup args listen =
     (let policyName = (case flag_a args of None \<Rightarrow> ''RoundRobin'' | Some a \<Rightarrow> a);
          port = (case flag_p args of None \<Rightarrow> 8080 | Some n \<Rightarrow> n);
          serversFlag = (case flag_s args of None \<Rightarrow> [] | Some v \<Rightarrow> v)
      in if length serversFlag = 0 then Fatalf NoBackendServers
         else
           (let servers = Fields serversFlag
            in case new_policy policyName servers of
                 None \<Rightarrow> Fatalf (UnknownPolicy policyName)
               | Some policy \<Rightarrow>
                   (if \<not> listen port then Fatalf (FailedToListen port)
                    else AcceptLoop policy)))"

section \<open>LeastResponseTime: a call on its own\<close>

text \<open>
  When nothing comes between the unlock and the \<open>return\<close>, the backend returned is the
  one the critical section chose.
\<close>

lemma LeastResponseTime_SelectServer_serial:
  "LeastResponseTime_SelectServer p now =
     (case lrt_servers p of
        [] \<Rightarrow> Inl IndexOutOfRange
      | first # _ \<Rightarrow>
          (let selected = snd (lrt_scan (lrt_avgTime p) (lrt_servers p) first)
           in case lrt_advance (length (lrt_servers p)) (lrt_servers p) (lrt_avgTime p)
                     selected (lrt_current p) of
                Inl e \<Rightarrow> Inl e
              | Inr cur \<Rightarrow>
                  (if cur < 0 \<or> int (length (lrt_servers p)) \<le> cur then Inl IndexOutOfRange
                   else
                     (let target = lrt_servers p ! nat cur
                      in case lrt_push (lrt_startTimes p target) now of
                           Inl e \<Rightarrow> Inl e
                         | Inr ch \<Rightarrow>
                             Inr (target,
                                  p\<lparr>lrt_startTimes := (lrt_startTimes p)(target \<mapsto> ch),
                                    lrt_current := cur\<rparr>)))))"
  by (simp add: LeastResponseTime_SelectServer_def LeastResponseTime_SelectServer_locked_def
      LeastResponseTime_SelectServer_return_def Let_def
      del: lrt_advance.simps split: list.splits sum.splits)

section \<open>RoundRobin determinism\<close>

lemma go_rem_nonneg: "0 \<le> a \<Longrightarrow> 0 < b \<Longrightarrow> go_rem a b = a mod b"
  by (cases "a = 0") (simp_all add: go_rem_def)

lemma RoundRobin_SelectServer_in_range:
  assumes "i < length servers"
  shows "RoundRobin_SelectServer \<lparr>rr_servers = servers, rr_idx = int i\<rparr> =
           Inr (servers ! i, \<lparr>rr_servers = servers, rr_idx = int (Suc i mod length servers)\<rparr>)"
proof -
  have "go_rem (int i + 1) (int (length servers)) = (int i + 1) mod int (length servers)"
    using assms by (intro go_rem_nonneg) auto
  then have "go_rem (int i + 1) (int (length servers)) = int (Suc i mod length servers)"
    by (simp add: zmod_int add.commute)
  then show ?thesis
    using assms by (simp add: RoundRobin_SelectServer_def)
qed

lemma rr_run_selects:
  assumes "i < length servers"
  shows "run (PRoundRobin \<lparr>rr_servers = servers, rr_idx = int i\<rparr>) (map Select ts) =
           Inr (map (\<lambda>j. servers ! ((i + j) mod length servers)) [0..<length ts],
                PRoundRobin \<lparr>rr_servers = servers,
                              rr_idx = int ((i + length ts) mod length servers)\<rparr>)"
  using assms
proof (induction ts arbitrary: i)
  case Nil
  then show ?case by simp
next
  case (Cons t ts)
  let ?n = "length servers"
  have lt: "Suc i mod ?n < ?n"
    using Cons.prems by (intro mod_less_divisor) arith
  have shift: "(Suc i mod ?n + j) mod ?n = (i + Suc j) mod ?n" for j
    by (metis add_Suc add_Suc_right mod_add_left_eq)
  have "map (\<lambda>j. servers ! ((i + j) mod ?n)) [0..<length (t # ts)] =
        servers ! i # map (\<lambda>j. servers ! ((Suc i mod ?n + j) mod ?n)) [0..<length ts]"
    using Cons.prems by (simp add: map_upt_Suc shift del: upt_Suc)
  moreover have "(i + length (t # ts)) mod ?n = (Suc i mod ?n + length ts) mod ?n"
    using shift [of "length ts"] by simp
  ultimately show ?case
    using Cons.IH [OF lt] Cons.prems
    by (simp add: RoundRobin_SelectServer_in_range)
qed

lemma map_nth_rotate:
  assumes "xs \<noteq> []"
  shows "map (\<lambda>j. xs ! ((i + j) mod length xs)) [0..<length xs] = rotate i xs"
  by (rule nth_equalityI) (simp_all add: nth_rotate)

lemma rr_run_ignores_Update:
  "run (PRoundRobin p) cs = run (PRoundRobin p) (filter is_select cs)"
proof (induction cs arbitrary: p)
  case Nil
  then show ?case by simp
next
  case (Cons c cs)
  show ?case
  proof (cases c)
    case (Select now)
    then show ?thesis
      using Cons.IH
      by (cases "RoundRobin_SelectServer p") (auto split: sum.splits)
  next
    case (Upd server now)
    then show ?thesis
      using Cons.IH by (simp add: RoundRobin_Update_def)
  qed
qed


lemma run_append:
  "run p (cs @ ds) =
     (case run p cs of
        Inl e \<Rightarrow> Inl e
      | Inr (bs, p') \<Rightarrow>
          (case run p' ds of Inl e \<Rightarrow> Inl e | Inr (bs', p'') \<Rightarrow> Inr (bs @ bs', p'')))"
proof (induction cs arbitrary: p)
  case Nil
  then show ?case by (simp split: sum.splits)
next
  case (Cons c cs)
  then show ?case
    by (cases c) (simp_all split: sum.splits prod.splits)
qed

lemma rr_run_window:
  assumes "i < length servers" and "length ts = length servers"
  shows "run (PRoundRobin \<lparr>rr_servers = servers, rr_idx = int i\<rparr>) (map Select ts) =
           Inr (rotate i servers, PRoundRobin \<lparr>rr_servers = servers, rr_idx = int i\<rparr>)"
proof -
  have "servers \<noteq> []"
    using assms(1) by auto
  then show ?thesis
    using assms by (simp add: rr_run_selects map_nth_rotate)
qed

text \<open>
  C5. A RoundRobin policy freshly constructed over a non-empty pool of N backends
  answers N consecutive SelectServer calls with the pool itself, in pool order, and is
  then back in its initial state, so the next N calls return the same sequence; after
  any number of earlier selections, the next N calls return every pool position once,
  as the pool rotated by that number; Update calls, wherever they are interleaved,
  change neither the selections nor the state.
\<close>

theorem RoundRobin_determinism:
  assumes "servers \<noteq> []" and "length ts = length servers" and "length ts' = length servers"
  shows "run (PRoundRobin (NewRoundRobin servers)) (map Select ts) =
           Inr (servers, PRoundRobin (NewRoundRobin servers))
       \<and> run (PRoundRobin (NewRoundRobin servers)) (map Select (ts @ ts')) =
           Inr (servers @ servers, PRoundRobin (NewRoundRobin servers))
       \<and> (\<forall>us. \<exists>bs p. run (PRoundRobin (NewRoundRobin servers)) (map Select us) = Inr (bs, p)
                \<and> run p (map Select ts) = Inr (rotate (length us) servers, p))
       \<and> (\<forall>cs. run (PRoundRobin (NewRoundRobin servers)) cs =
                run (PRoundRobin (NewRoundRobin servers)) (filter is_select cs))
       \<and> (\<forall>p server now. Update (PRoundRobin p) server now = PRoundRobin p)"
proof -
  let ?n = "length servers"
  let ?fresh = "PRoundRobin (NewRoundRobin servers)"
  have pos: "0 < ?n"
    using assms(1) by simp
  have fresh: "NewRoundRobin servers = \<lparr>rr_servers = servers, rr_idx = int 0\<rparr>"
    by (simp add: NewRoundRobin_def)
  have first: "run ?fresh (map Select ts) = Inr (servers, ?fresh)"
    unfolding fresh using rr_run_window [OF pos assms(2)] by simp
  have again: "run ?fresh (map Select ts') = Inr (servers, ?fresh)"
    unfolding fresh using rr_run_window [OF pos assms(3)] by simp
  have twice: "run ?fresh (map Select (ts @ ts')) = Inr (servers @ servers, ?fresh)"
    by (simp add: run_append first again)
  have window: "\<exists>bs p. run ?fresh (map Select us) = Inr (bs, p)
                  \<and> run p (map Select ts) = Inr (rotate (length us) servers, p)" for us
  proof -
    let ?i = "length us mod ?n"
    let ?p = "PRoundRobin \<lparr>rr_servers = servers, rr_idx = int ?i\<rparr>"
    have lt: "?i < ?n"
      using pos by simp
    have "run ?fresh (map Select us) =
            Inr (map (\<lambda>j. servers ! ((0 + j) mod ?n)) [0..<length us], ?p)"
      unfolding fresh using rr_run_selects [OF pos, of us] by simp
    moreover have "run ?p (map Select ts) = Inr (rotate (length us) servers, ?p)"
      using rr_run_window [OF lt assms(2)] rotate_conv_mod [of "length us" servers] by simp
    ultimately show ?thesis by blast
  qed
  have noop: "Update (PRoundRobin p) server now = PRoundRobin p" for p server now
    by (simp add: RoundRobin_Update_def)
  show ?thesis
    using first twice window rr_run_ignores_Update noop by blast
qed

theorem RoundRobin_determinism_witness:
  "[''b0'', ''b1'', ''b2''] \<noteq> [] \<and> length [0, 1, 2 :: int] = length [''b0'', ''b1'', ''b2'']
   \<and> run (PRoundRobin (NewRoundRobin [''b0'', ''b1'', ''b2''])) (map Select [0, 1, 2]) =
       Inr ([''b0'', ''b1'', ''b2''], PRoundRobin (NewRoundRobin [''b0'', ''b1'', ''b2'']))
   \<and> run (PRoundRobin (NewRoundRobin [''b0'', ''b1'', ''b2''])) (map Select ([0, 1, 2] @ [3, 4, 5])) =
       Inr ([''b0'', ''b1'', ''b2''] @ [''b0'', ''b1'', ''b2''],
            PRoundRobin (NewRoundRobin [''b0'', ''b1'', ''b2'']))"
  using RoundRobin_determinism [of "[''b0'', ''b1'', ''b2'']" "[0, 1, 2]" "[3, 4, 5]"]
  by simp

section \<open>The update scenarios of the test suite\<close>

text \<open>
  C6. LeastConnections, freshly constructed over four distinct backends b0..b3, run
  through eight selections with Update(b0), Update(b3), Update(b2), Update(b0) after
  the 5th to 8th, selects b0, b1, b2, b3, b0, b0, b3, b2.
\<close>

theorem LeastConnections_scenario:
  assumes "distinct [b0, b1, b2, b3]"
  shows "map_sum id fst (run (PLeastConnections (NewLeastConnections [b0, b1, b2, b3]))
                             (update_scenario b0 b2 b3 t u)) =
           Inr [b0, b1, b2, b3, b0, b0, b3, b2]"
proof -
  have ne: "b0 \<noteq> b1" "b0 \<noteq> b2" "b0 \<noteq> b3" "b1 \<noteq> b2" "b1 \<noteq> b3" "b2 \<noteq> b3"
    "b1 \<noteq> b0" "b2 \<noteq> b0" "b3 \<noteq> b0" "b2 \<noteq> b1" "b3 \<noteq> b1" "b3 \<noteq> b2"
    using assms by auto
  show ?thesis
    by (simp add: ne update_scenario_def NewLeastConnections_def
        LeastConnections_SelectServer_def LeastConnections_Update_def lc_scan_def
        lc_scan_step_def map_get_def max_int_def min_int_def int_incr_def int_decr_def Let_def)
qed

theorem LeastConnections_scenario_witness:
  "distinct [''localhost:5000'', ''localhost:5001'', ''localhost:5002'', ''localhost:5003'']
   \<and> map_sum id fst
        (run (PLeastConnections (NewLeastConnections
                [''localhost:5000'', ''localhost:5001'', ''localhost:5002'', ''localhost:5003'']))
             (update_scenario ''localhost:5000'' ''localhost:5002'' ''localhost:5003''
                (\<lambda>i. 0) (\<lambda>i. 0))) =
       Inr [''localhost:5000'', ''localhost:5001'', ''localhost:5002'', ''localhost:5003'',
            ''localhost:5000'', ''localhost:5000'', ''localhost:5003'', ''localhost:5002'']"
  using LeastConnections_scenario
          [of "''localhost:5000''" "''localhost:5001''" "''localhost:5002''" "''localhost:5003''"
              "\<lambda>i. 0" "\<lambda>i. 0"]
  by simp

text \<open>
  C3. LeastResponseTime, freshly constructed over four distinct backends b0..b3, run
  through the same eight iterations, each starting at least 100 ms after the previous
  one ended (the clock never going back), selects b0, b1, b2, b3, b0, b1, b2, b1.
\<close>

theorem LeastResponseTime_scenario:
  assumes "distinct [b0, b1, b2, b3]"
    and "\<forall>i. t i \<le> u i \<and> u i + 100000000 \<le> t (Suc i)"
  shows "map_sum id fst (run (PLeastResponseTime (NewLeastResponseTime [b0, b1, b2, b3]))
                             (update_scenario b0 b2 b3 t u)) =
           Inr [b0, b1, b2, b3, b0, b1, b2, b1]"
proof -
  have ne: "b0 \<noteq> b1" "b0 \<noteq> b2" "b0 \<noteq> b3" "b1 \<noteq> b2" "b1 \<noteq> b3" "b2 \<noteq> b3"
    "b1 \<noteq> b0" "b2 \<noteq> b0" "b3 \<noteq> b0" "b2 \<noteq> b1" "b3 \<noteq> b1" "b3 \<noteq> b2"
    using assms(1) by auto
  have step: "t i < t (Suc i)" "t i \<le> u i" for i
    using assms(2) [rule_format, of i] by linarith+
  have "t 0 < t 1" "t 1 < t 2" "t 2 < t 3" "t 3 < t 4" "t 4 < t 5" "t 5 < t 6"
    "t 4 \<le> u 4" "t 5 \<le> u 5" "t 6 \<le> u 6"
    using step(1) [of 0] step(1) [of 1] step(1) [of 2] step(1) [of 3] step(1) [of 4]
      step(1) [of 5] step(2)
    by (simp_all add: numeral_eq_Suc)
  then have elapsed: "t 0 < u 4" "t 3 < u 5" "t 2 < u 6"
    "u 4 \<noteq> t 0" "u 5 \<noteq> t 3" "u 6 \<noteq> t 2"
    "\<not> u 4 < t 0" "\<not> u 5 < t 3" "\<not> u 6 < t 2"
    by linarith+
  show ?thesis
    by (simp add: ne elapsed update_scenario_def NewLeastResponseTime_def
        LeastResponseTime_SelectServer_serial LeastResponseTime_Update_def lrt_scan_def
        lrt_scan_step_def lrt_push_def try_send_def try_recv_def chan_cap_def map_get_def
        slice_get_def mean_def seconds_since_def go_rem_def Let_def)
qed

theorem LeastResponseTime_scenario_witness:
  "distinct [''localhost:5000'', ''localhost:5001'', ''localhost:5002'', ''localhost:5003'']
   \<and> (\<forall>i. 100000000 * int i \<le> 100000000 * int i
          \<and> 100000000 * int i + 100000000 \<le> 100000000 * int (Suc i))
   \<and> map_sum id fst
        (run (PLeastResponseTime (NewLeastResponseTime
                [''localhost:5000'', ''localhost:5001'', ''localhost:5002'', ''localhost:5003'']))
             (update_scenario ''localhost:5000'' ''localhost:5002'' ''localhost:5003''
                (\<lambda>i. 100000000 * int i) (\<lambda>i. 100000000 * int i))) =
       Inr [''localhost:5000'', ''localhost:5001'', ''localhost:5002'', ''localhost:5003'',
            ''localhost:5000'', ''localhost:5001'', ''localhost:5002'', ''localhost:5001'']"
  using LeastResponseTime_scenario
          [of "''localhost:5000''" "''localhost:5001''" "''localhost:5002''" "''localhost:5003''"
              "\<lambda>i. 100000000 * int i" "\<lambda>i. 100000000 * int i"]
  by simp

section \<open>LeastConnections: the scan and the range of the counts\<close>

lemma map_get_upd: "map_get (m(k \<mapsto> v)) k' = (if k' = k then v else map_get m k')"
  by (simp add: map_get_def)

lemma lc_scan_step_pair:
  "lc_scan_step conn s (m, sel) = (if map_get conn s < m then (map_get conn s, s) else (m, sel))"
  by (simp add: lc_scan_step_def)

lemma lc_scan_fold:
  "fold (lc_scan_step conn) xs (m, sel) = (m', sel') \<Longrightarrow>
     (m', sel') = (m, sel) \<or> (sel' \<in> set xs \<and> m' = map_get conn sel' \<and> m' < m)"
proof (induction xs arbitrary: m sel)
  case Nil
  then show ?case by simp
next
  case (Cons x xs)
  show ?case
  proof (cases "map_get conn x < m")
    case True
    then have "fold (lc_scan_step conn) xs (map_get conn x, x) = (m', sel')"
      using Cons.prems by (simp add: lc_scan_step_pair)
    from Cons.IH [OF this] True show ?thesis by auto
  next
    case False
    then have "fold (lc_scan_step conn) xs (m, sel) = (m', sel')"
      using Cons.prems by (simp add: lc_scan_step_pair)
    from Cons.IH [OF this] show ?thesis by auto
  qed
qed

lemma lc_scan_selected:
  "snd (lc_scan conn servers) = [] \<or>
   (snd (lc_scan conn servers) \<in> set servers \<and> map_get conn (snd (lc_scan conn servers)) < max_int)"
proof -
  obtain m' sel' where r: "fold (lc_scan_step conn) servers (max_int, []) = (m', sel')"
    by (cases "fold (lc_scan_step conn) servers (max_int, [])")
  from lc_scan_fold [OF r] r show ?thesis
    by (auto simp: lc_scan_def)
qed

lemma fold_upd_const:
  "fold (\<lambda>s m. m(s \<mapsto> v)) xs m0 k = (if k \<in> set xs then Some v else m0 k)"
  by (induction xs arbitrary: m0) auto

lemma dom_fold_upd_const: "dom (fold (\<lambda>s m. m(s \<mapsto> v)) xs Map.empty) = set xs"
  by (auto simp: dom_def fold_upd_const)

lemma lc_scan_fold_le:
  "fold (lc_scan_step conn) xs (m, sel) = (m', sel') \<Longrightarrow>
     m' \<le> m \<and> (\<forall>x \<in> set xs. m' \<le> map_get conn x)"
proof (induction xs arbitrary: m sel)
  case Nil
  then show ?case by simp
next
  case (Cons x xs)
  show ?case
  proof (cases "map_get conn x < m")
    case True
    then have "fold (lc_scan_step conn) xs (map_get conn x, x) = (m', sel')"
      using Cons.prems by (simp add: lc_scan_step_pair)
    from Cons.IH [OF this] True show ?thesis by auto
  next
    case False
    then have "fold (lc_scan_step conn) xs (m, sel) = (m', sel')"
      using Cons.prems by (simp add: lc_scan_step_pair)
    from Cons.IH [OF this] False show ?thesis by auto
  qed
qed

lemma lc_scan_in_pool:
  assumes "servers \<noteq> []" and "\<forall>b \<in> set servers. map_get conn b < max_int"
  shows "snd (lc_scan conn servers) \<in> set servers"
proof -
  obtain m' sel' where r: "fold (lc_scan_step conn) servers (max_int, []) = (m', sel')"
    by (cases "fold (lc_scan_step conn) servers (max_int, [])")
  have "hd servers \<in> set servers"
    using assms(1) by simp
  then have "m' < max_int"
    using lc_scan_fold_le [OF r] assms(2) by fastforce
  then show ?thesis
    using lc_scan_fold [OF r] r by (auto simp: lc_scan_def)
qed

lemma LeastConnections_select_update:
  assumes "LeastConnections_wf p" and "LeastConnections_SelectServer p = (s, p')"
  shows "s \<in> set (lc_servers p)" and "LeastConnections_Update p' s = p"
proof -
  have s: "s = snd (lc_scan (lc_connections p) (lc_servers p))"
    and p': "p' = p\<lparr>lc_connections :=
                 (lc_connections p)(s \<mapsto> int_incr (map_get (lc_connections p) s))\<rparr>"
    using assms(2) by (auto simp: LeastConnections_SelectServer_def Let_def)
  show mem: "s \<in> set (lc_servers p)"
    unfolding s using assms(1) by (intro lc_scan_in_pool) (auto simp: LeastConnections_wf_def)
  then obtain c where c: "lc_connections p s = Some c"
    using assms(1) by (auto simp: LeastConnections_wf_def)
  have range: "0 \<le> c" "c < max_int"
    using assms(1) mem c by (auto simp: LeastConnections_wf_def map_get_def)
  have incr: "int_incr (map_get (lc_connections p) s) = c + 1"
    using c range by (simp add: int_incr_def map_get_def)
  have decr: "int_decr (c + 1) = c"
    using range by (simp add: int_decr_def min_int_def)
  have "(lc_connections p)(s \<mapsto> c) = lc_connections p"
    using c by (simp add: fun_upd_idem)
  then show "LeastConnections_Update p' s = p"
    using range by (simp add: LeastConnections_Update_def p' incr decr)
qed

lemma lc_bounded_wf: "lc_bounded k p \<Longrightarrow> k < max_int \<Longrightarrow> LeastConnections_wf p"
  by (fastforce simp: lc_bounded_def LeastConnections_wf_def)

lemma lc_bounded_mono: "lc_bounded k p \<Longrightarrow> k \<le> k' \<Longrightarrow> lc_bounded k' p"
  by (fastforce simp: lc_bounded_def)

lemma lc_bounded_New: "servers \<noteq> [] \<Longrightarrow> lc_bounded 0 (NewLeastConnections servers)"
  by (simp add: lc_bounded_def NewLeastConnections_def dom_fold_upd_const fold_upd_const
      map_get_def)

lemma lc_bounded_Update:
  assumes "lc_bounded k p"
  shows "lc_bounded k (LeastConnections_Update p s)"
proof (cases "lc_connections p s")
  case None
  then show ?thesis
    using assms by (simp add: LeastConnections_Update_def)
next
  case (Some c)
  then have mem: "s \<in> set (lc_servers p)"
    using assms by (auto simp: lc_bounded_def)
  then have "0 \<le> c" "c \<le> k"
    using assms Some by (auto simp: lc_bounded_def map_get_def)
  then have "0 < c \<Longrightarrow> 0 \<le> int_decr c \<and> int_decr c \<le> k"
    by (simp add: int_decr_def min_int_def)
  then show ?thesis
    using assms Some mem
    by (auto simp: lc_bounded_def LeastConnections_Update_def map_get_upd)
qed

lemma lc_bounded_SelectServer:
  assumes "lc_bounded k p" and "k < max_int" and "LeastConnections_SelectServer p = (s, p')"
  shows "s \<in> set (lc_servers p)" and "lc_bounded (k + 1) p'"
proof -
  have wf: "LeastConnections_wf p"
    using lc_bounded_wf [OF assms(1,2)] .
  show mem: "s \<in> set (lc_servers p)"
    using LeastConnections_select_update(1) [OF wf assms(3)] .
  have p': "p' = p\<lparr>lc_connections :=
                 (lc_connections p)(s \<mapsto> int_incr (map_get (lc_connections p) s))\<rparr>"
    using assms(3) by (auto simp: LeastConnections_SelectServer_def Let_def)
  have "0 \<le> map_get (lc_connections p) s" "map_get (lc_connections p) s \<le> k"
    using assms(1) mem by (auto simp: lc_bounded_def)
  then have "int_incr (map_get (lc_connections p) s) = map_get (lc_connections p) s + 1"
    using assms(2) by (simp add: int_incr_def)
  then show "lc_bounded (k + 1) p'"
    using assms(1) mem by (fastforce simp: lc_bounded_def p' map_get_upd)
qed

lemma lc_bounded_run:
  assumes "lc_bounded k p" and "k + int (length cs) < max_int"
  shows "lc_bounded (k + int (length cs)) (snd (lc_run p cs))"
  using assms
proof (induction cs arbitrary: k p)
  case Nil
  then show ?case by simp
next
  case (Cons c cs)
  show ?case
  proof (cases c)
    case (Select now)
    obtain s q where sel: "LeastConnections_SelectServer p = (s, q)"
      by (cases "LeastConnections_SelectServer p")
    have "k < max_int"
      using Cons.prems(2) by simp
    then have "lc_bounded (k + 1) q"
      using lc_bounded_SelectServer(2) [OF Cons.prems(1) _ sel] by simp
    moreover have "k + 1 + int (length cs) < max_int"
      using Cons.prems(2) by simp
    ultimately have "lc_bounded (k + 1 + int (length cs)) (snd (lc_run q cs))"
      by (rule Cons.IH)
    then show ?thesis
      using Select sel by (simp add: split_beta ac_simps)
  next
    case (Upd s now)
    have "lc_bounded (k + 1) (LeastConnections_Update p s)"
      using lc_bounded_mono [OF lc_bounded_Update [OF Cons.prems(1)], of "k + 1" s] by simp
    moreover have "k + 1 + int (length cs) < max_int"
      using Cons.prems(2) by simp
    ultimately have "lc_bounded (k + 1 + int (length cs))
                       (snd (lc_run (LeastConnections_Update p s) cs))"
      by (rule Cons.IH)
    then show ?thesis
      using Upd by (simp add: split_beta ac_simps)
  qed
qed


section \<open>The LeastConnections counters\<close>

lemma lc_inv_New: "lc_inv servers (NewLeastConnections servers)"
  by (simp add: lc_inv_def NewLeastConnections_def map_get_def fold_upd_const max_int_def)

lemma lc_select_step:
  assumes "lc_inv servers p"
    and "[] \<in> set servers \<longrightarrow> map_get (lc_connections p) [] < max_int"
    and "LeastConnections_SelectServer p = (s, p')"
  shows "lc_inv servers p'"
    and "b \<in> set servers \<Longrightarrow>
           map_get (lc_connections p') b =
             map_get (lc_connections p) b + (if s = b then 1 else 0)"
proof -
  have s: "s = snd (lc_scan (lc_connections p) (lc_servers p))"
    and p': "p' = p\<lparr>lc_connections :=
                 (lc_connections p)(s \<mapsto> int_incr (map_get (lc_connections p) s))\<rparr>"
    using assms(3) by (auto simp: LeastConnections_SelectServer_def Let_def)
  have srv: "lc_servers p = servers"
    using assms(1) by (simp add: lc_inv_def)
  have below: "map_get (lc_connections p) s < max_int" if "s \<in> set servers"
    using lc_scan_selected [of "lc_connections p" servers] that assms(2) s srv by auto
  have incr: "int_incr (map_get (lc_connections p) s) = map_get (lc_connections p) s + 1"
    if "s \<in> set servers"
    using below [OF that] by (simp add: int_incr_def)
  show "lc_inv servers p'"
    using assms(1) below incr
    by (auto simp: lc_inv_def p' map_get_upd)
  show "map_get (lc_connections p') b =
          map_get (lc_connections p) b + (if s = b then 1 else 0)" if "b \<in> set servers"
    using that incr by (auto simp: p' map_get_upd)
qed

lemma lc_update_count:
  "map_get (lc_connections (LeastConnections_Update p s)) b =
     (if b = s \<and> 0 < map_get (lc_connections p) s \<and> map_get (lc_connections p) s \<noteq> min_int
      then map_get (lc_connections p) b - 1 else map_get (lc_connections p) b)"
  by (auto simp: LeastConnections_Update_def map_get_def int_decr_def min_int_def
           split: option.splits)

lemma lc_update_step:
  assumes "lc_inv servers p"
  shows "lc_inv servers (LeastConnections_Update p s)"
proof -
  have "lc_servers (LeastConnections_Update p s) = lc_servers p"
    by (simp add: LeastConnections_Update_def split: option.splits)
  then show ?thesis
    using assms by (auto simp: lc_inv_def lc_update_count)
qed

lemma lc_run_counts:
  assumes "lc_inv servers p"
    and "[] \<notin> set servers \<or> (lc_bounded k p \<and> k + int (length cs) < max_int)"
    and "b \<in> set servers" and "lc_run p cs = (es, p')"
  shows "lc_inv servers p' \<and>
         map_get (lc_connections p') b =
           map_get (lc_connections p) b + int (selections es b) - int (effective_updates es b)"
  using assms(1,2,4)
proof (induction cs arbitrary: p es k)
  case Nil
  then show ?case by (simp add: selections_def effective_updates_def)
next
  case (Cons c cs)
  have srv: "lc_servers p = servers"
    using Cons.prems(1) by (simp add: lc_inv_def)
  show ?case
  proof (cases c)
    case (Select now)
    obtain s q where sel: "LeastConnections_SelectServer p = (s, q)"
      by (cases "LeastConnections_SelectServer p")
    obtain es' where rest: "lc_run q cs = (es', p')" and es: "es = Selected s # es'"
      using Cons.prems(3) Select sel by (auto split: prod.splits)
    have room: "[] \<in> set servers \<longrightarrow> map_get (lc_connections p) [] < max_int"
      using Cons.prems(2) srv by (fastforce simp: lc_bounded_def)
    have inv: "lc_inv servers q"
      using lc_select_step(1) [OF Cons.prems(1) room sel] .
    have cnt: "map_get (lc_connections q) b =
                 map_get (lc_connections p) b + (if s = b then 1 else 0)"
      using lc_select_step(2) [OF Cons.prems(1) room sel assms(3)] .
    have next_room: "[] \<notin> set servers \<or>
                       (lc_bounded (k + 1) q \<and> k + 1 + int (length cs) < max_int)"
    proof (cases "[] \<notin> set servers")
      case True
      then show ?thesis by simp
    next
      case False
      then have b: "lc_bounded k p" "k + int (length (c # cs)) < max_int"
        using Cons.prems(2) by simp_all
      then have "k < max_int" by simp
      from lc_bounded_SelectServer(2) [OF b(1) this sel] b(2) show ?thesis by simp
    qed
    from Cons.IH [OF inv next_room rest] cnt show ?thesis
      by (auto simp: es selections_def effective_updates_def)
  next
    case (Upd s now)
    let ?q = "LeastConnections_Update p s"
    obtain es' where rest: "lc_run ?q cs = (es', p')"
      and es: "es = Updated s (map_get (lc_connections p) s) # es'"
      using Cons.prems(3) Upd by (auto split: prod.splits)
    have inv: "lc_inv servers ?q"
      using lc_update_step [OF Cons.prems(1)] .
    have "map_get (lc_connections p) s \<noteq> min_int" if "s = b"
      using Cons.prems(1) assms(3) that by (auto simp: lc_inv_def min_int_def)
    then have cnt: "map_get (lc_connections ?q) b =
                 map_get (lc_connections p) b
                   - (if s = b \<and> 0 < map_get (lc_connections p) s then 1 else 0)"
      by (auto simp: lc_update_count)
    have next_room: "[] \<notin> set servers \<or>
                       (lc_bounded (k + 1) ?q \<and> k + 1 + int (length cs) < max_int)"
    proof (cases "[] \<notin> set servers")
      case True
      then show ?thesis by simp
    next
      case False
      then have b: "lc_bounded k p" "k + int (length (c # cs)) < max_int"
        using Cons.prems(2) by simp_all
      have "lc_bounded (k + 1) ?q"
        using lc_bounded_mono [OF lc_bounded_Update [OF b(1)], of "k + 1" s] by simp
      then show ?thesis using b(2) by simp
    qed
    from Cons.IH [OF inv next_room rest] cnt show ?thesis
      by (auto simp: es selections_def effective_updates_def)
  qed
qed

lemma lc_run_is_run:
  "run (PLeastConnections p) cs =
     Inr (selected_backends (fst (lc_run p cs)), PLeastConnections (snd (lc_run p cs)))"
proof (induction cs arbitrary: p)
  case Nil
  then show ?case by simp
next
  case (Cons c cs)
  then show ?case
    by (cases c) (simp_all add: split_beta Let_def)
qed

lemma lc_select_increments:
  assumes "lc_inv servers p"
    and "[] \<in> set servers \<longrightarrow> map_get (lc_connections p) [] < max_int"
    and "LeastConnections_SelectServer p = (s, p')" and "s \<in> set servers"
  shows "map_get (lc_connections p') s = map_get (lc_connections p) s + 1"
  using lc_select_step(2) [OF assms(1-3), of s] assms(4) by simp

lemma lc_update_decrements:
  assumes "lc_inv servers p" and "s \<in> set servers"
  shows "map_get (lc_connections (LeastConnections_Update p s)) s =
           map_get (lc_connections p) s - (if 0 < map_get (lc_connections p) s then 1 else 0)"
proof -
  have "map_get (lc_connections p) s \<noteq> min_int"
    using assms by (auto simp: lc_inv_def min_int_def)
  then show ?thesis
    by (simp add: lc_update_count)
qed

text \<open>
  C4. For a LeastConnections policy constructed over a pool and after any sequence of
  SelectServer and Update calls (any sequence at all when no backend address is the
  empty string, and any sequence of fewer than \<open>2^63 - 1\<close> calls otherwise), the count of
  every backend b of the pool is the number of selections that returned b minus the
  number of Update(b) calls that found the count of b positive, and it is not negative;
  the next SelectServer adds one to the count of the backend it returns, and the next
  Update(b) takes one off the count of b exactly when that count is positive.
\<close>

theorem LeastConnections_counter_invariant:
  assumes "[] \<notin> set servers \<or> int (length cs) < max_int" and "b \<in> set servers"
    and "lc_run (NewLeastConnections servers) cs = (es, p)"
  shows "run (PLeastConnections (NewLeastConnections servers)) cs =
           Inr (selected_backends es, PLeastConnections p)
       \<and> map_get (lc_connections p) b = int (selections es b) - int (effective_updates es b)
       \<and> 0 \<le> map_get (lc_connections p) b
       \<and> (\<forall>s p'. LeastConnections_SelectServer p = (s, p') \<and> s \<in> set servers \<longrightarrow>
             map_get (lc_connections p') s = map_get (lc_connections p) s + 1)
       \<and> map_get (lc_connections (LeastConnections_Update p b)) b =
           map_get (lc_connections p) b - (if 0 < map_get (lc_connections p) b then 1 else 0)"
proof -
  have ne: "servers \<noteq> []"
    using assms(2) by auto
  have fresh: "map_get (lc_connections (NewLeastConnections servers)) b = 0"
    using assms(2) by (simp add: NewLeastConnections_def map_get_def fold_upd_const)
  have start: "[] \<notin> set servers \<or>
                 (lc_bounded 0 (NewLeastConnections servers) \<and> 0 + int (length cs) < max_int)"
    using assms(1) lc_bounded_New [OF ne] by auto
  have inv: "lc_inv servers p"
    and count: "map_get (lc_connections p) b =
                  int (selections es b) - int (effective_updates es b)"
    using lc_run_counts [OF lc_inv_New start assms(2,3)] fresh by simp_all
  have room: "[] \<in> set servers \<longrightarrow> map_get (lc_connections p) [] < max_int"
  proof
    assume empty: "[] \<in> set servers"
    then have short: "0 + int (length cs) < max_int"
      using assms(1) by simp
    have "lc_bounded (0 + int (length cs)) (snd (lc_run (NewLeastConnections servers) cs))"
      using lc_bounded_run [OF lc_bounded_New [OF ne] short] .
    then have "lc_bounded (int (length cs)) p"
      using assms(3) by simp
    moreover have "lc_servers p = servers"
      using inv by (simp add: lc_inv_def)
    ultimately have "map_get (lc_connections p) [] \<le> int (length cs)"
      using empty by (simp add: lc_bounded_def)
    then show "map_get (lc_connections p) [] < max_int"
      using short by simp
  qed
  have "run (PLeastConnections (NewLeastConnections servers)) cs =
          Inr (selected_backends es, PLeastConnections p)"
    using lc_run_is_run [of "NewLeastConnections servers" cs] assms(3) by simp
  moreover have "0 \<le> map_get (lc_connections p) b"
    using inv assms(2) by (simp add: lc_inv_def)
  moreover have "map_get (lc_connections p') s = map_get (lc_connections p) s + 1"
    if "LeastConnections_SelectServer p = (s, p')" and "s \<in> set servers" for s p'
    using lc_select_increments [OF inv room that] .
  ultimately show ?thesis
    using count lc_update_decrements [OF inv assms(2)] by blast
qed

theorem LeastConnections_counter_invariant_witness:
  "[] \<notin> set [''b0'', ''b1''] \<and> ''b0'' \<in> set [''b0'', ''b1'']
   \<and> selections (fst (lc_run (NewLeastConnections [''b0'', ''b1''])
         [Select 0, Upd ''b0'' 1, Upd ''b0'' 2, Select 3, Select 4, Select 5])) ''b0'' = 3
   \<and> effective_updates (fst (lc_run (NewLeastConnections [''b0'', ''b1''])
         [Select 0, Upd ''b0'' 1, Upd ''b0'' 2, Select 3, Select 4, Select 5])) ''b0'' = 1
   \<and> map_get (lc_connections (snd (lc_run (NewLeastConnections [''b0'', ''b1''])
         [Select 0, Upd ''b0'' 1, Upd ''b0'' 2, Select 3, Select 4, Select 5]))) ''b0'' =
       int (selections (fst (lc_run (NewLeastConnections [''b0'', ''b1''])
         [Select 0, Upd ''b0'' 1, Upd ''b0'' 2, Select 3, Select 4, Select 5])) ''b0'')
       - int (effective_updates (fst (lc_run (NewLeastConnections [''b0'', ''b1''])
         [Select 0, Upd ''b0'' 1, Upd ''b0'' 2, Select 3, Select 4, Select 5])) ''b0'')"
proof -
  let ?cs = "[Select 0, Upd ''b0'' 1, Upd ''b0'' 2, Select 3, Select 4, Select 5]"
  let ?r = "lc_run (NewLeastConnections [''b0'', ''b1'']) ?cs"
  have h0: "[] \<notin> set [''b0'', ''b1'']" and h2: "''b0'' \<in> set [''b0'', ''b1'']"
    by simp_all
  have h1: "[] \<notin> set [''b0'', ''b1''] \<or> int (length ?cs) < max_int"
    using h0 by simp
  have h3: "?r = (fst ?r, snd ?r)"
    by (rule prod.collapse [symmetric])
  have "map_get (lc_connections (snd ?r)) ''b0'' =
          int (selections (fst ?r) ''b0'') - int (effective_updates (fst ?r) ''b0'')"
    using LeastConnections_counter_invariant [OF h1 h2 h3] by (elim conjE)
  moreover have "selections (fst ?r) ''b0'' = 3" by code_simp
  moreover have "effective_updates (fst ?r) ''b0'' = 1" by code_simp
  ultimately show ?thesis
    using h0 h2 by (intro conjI)
qed


section \<open>What Update touches\<close>

text \<open>
  C10. For every policy variant, every state and every argument s, Update(s) leaves the
  pool, the cursor (RoundRobin's index, LeastResponseTime's tie-break cursor) and what is
  kept for every backend other than s (its connection count; its pending start times,
  history and running mean) as they were.
\<close>

theorem Update_frame:
  "pool (Update p s now) = pool p
   \<and> cursor (Update p s now) = cursor p
   \<and> (\<forall>b. b \<noteq> s \<longrightarrow> backend_state (Update p s now) b = backend_state p b)"
proof (cases p)
  case (PN2One q)
  then show ?thesis by (simp add: N2One_Update_def)
next
  case (PRoundRobin q)
  then show ?thesis by (simp add: RoundRobin_Update_def)
next
  case (PLeastConnections q)
  then show ?thesis
    by (simp add: LeastConnections_Update_def split: option.splits)
next
  case (PLeastResponseTime q)
  then show ?thesis
    by (simp add: LeastResponseTime_Update_def Let_def split: option.splits prod.splits)
qed

theorem Update_frame_witness:
  "''b1'' \<noteq> ''b0''
   \<and> backend_state
        (Update (PLeastResponseTime
           \<lparr>lrt_servers = [''b0'', ''b1''], lrt_avgTime = [''b0'' \<mapsto> 0, ''b1'' \<mapsto> 0],
            lrt_startTimes = [''b0'' \<mapsto> [0], ''b1'' \<mapsto> [7]],
            lrt_pastTimes = [''b0'' \<mapsto> [], ''b1'' \<mapsto> []], lrt_current = 1\<rparr>)
           ''b0'' 1000000000) ''b1'' =
       ResponseTimes (Some [7]) (Some []) (Some 0)
   \<and> backend_state
        (Update (PLeastResponseTime
           \<lparr>lrt_servers = [''b0'', ''b1''], lrt_avgTime = [''b0'' \<mapsto> 0, ''b1'' \<mapsto> 0],
            lrt_startTimes = [''b0'' \<mapsto> [0], ''b1'' \<mapsto> [7]],
            lrt_pastTimes = [''b0'' \<mapsto> [], ''b1'' \<mapsto> []], lrt_current = 1\<rparr>)
           ''b0'' 1000000000) ''b0'' =
       ResponseTimes (Some []) (Some [1]) (Some 1)
   \<and> cursor
        (Update (PLeastResponseTime
           \<lparr>lrt_servers = [''b0'', ''b1''], lrt_avgTime = [''b0'' \<mapsto> 0, ''b1'' \<mapsto> 0],
            lrt_startTimes = [''b0'' \<mapsto> [0], ''b1'' \<mapsto> [7]],
            lrt_pastTimes = [''b0'' \<mapsto> [], ''b1'' \<mapsto> []], lrt_current = 1\<rparr>)
           ''b0'' 1000000000) = Some 1"
proof -
  let ?p = "PLeastResponseTime
           \<lparr>lrt_servers = [''b0'', ''b1''], lrt_avgTime = [''b0'' \<mapsto> 0, ''b1'' \<mapsto> 0],
            lrt_startTimes = [''b0'' \<mapsto> [0], ''b1'' \<mapsto> [7]],
            lrt_pastTimes = [''b0'' \<mapsto> [], ''b1'' \<mapsto> []], lrt_current = 1\<rparr>"
  have ne: "''b1'' \<noteq> ''b0''" by simp
  note frame = Update_frame [of ?p "''b0''" 1000000000]
  have "cursor (Update ?p ''b0'' 1000000000) = cursor ?p"
    using frame by (elim conjE)
  then have cur: "cursor (Update ?p ''b0'' 1000000000) = Some 1"
    by simp
  have "backend_state (Update ?p ''b0'' 1000000000) ''b1'' = backend_state ?p ''b1''"
    using frame ne by (elim conjE allE [of _ "''b1''"] impE)
  then have other: "backend_state (Update ?p ''b0'' 1000000000) ''b1'' =
                      ResponseTimes (Some [7]) (Some []) (Some 0)"
    by simp
  have "backend_state (Update ?p ''b0'' 1000000000) ''b0'' =
          ResponseTimes (Some []) (Some [1]) (Some 1)"
    by (simp add: LeastResponseTime_Update_def try_recv_def slice_get_def mean_def
        seconds_since_def)
  then show ?thesis
    using cur other ne by (intro conjI)
qed

section \<open>Update after SelectServer, and Update of a stranger\<close>

lemma policy_wf_New:
  assumes "servers \<noteq> []"
  shows "policy_wf (PN2One (NewN2One servers))"
    and "policy_wf (PRoundRobin (NewRoundRobin servers))"
    and "policy_wf (PLeastConnections (NewLeastConnections servers))"
    and "policy_wf (PLeastResponseTime (NewLeastResponseTime servers))"
  using assms
  by (simp_all add: N2One_wf_def NewN2One_def RoundRobin_wf_def NewRoundRobin_def
      LeastConnections_wf_def NewLeastConnections_def LeastResponseTime_wf_def
      NewLeastResponseTime_def dom_fold_upd_const fold_upd_const map_get_def max_int_def)

text \<open>
  C9. For every policy variant in a state over a non-empty pool and every string s that
  is not in the pool, Update(s) returns the state unchanged, and so does every further
  Update(s).
\<close>

theorem Update_not_in_pool:
  assumes "policy_wf p" and "s \<notin> set (pool p)"
  shows "Update p s now = p \<and> Update (Update p s now) s now' = p"
proof -
  have "Update p s t = p" for t
  proof (cases p)
    case (PN2One q)
    then show ?thesis by (simp add: N2One_Update_def)
  next
    case (PRoundRobin q)
    then show ?thesis by (simp add: RoundRobin_Update_def)
  next
    case (PLeastConnections q)
    then have "lc_connections q s = None"
      using assms by (auto simp: LeastConnections_wf_def)
    then show ?thesis
      using PLeastConnections by (simp add: LeastConnections_Update_def)
  next
    case (PLeastResponseTime q)
    then have "lrt_startTimes q s = None"
      using assms by (auto simp: LeastResponseTime_wf_def)
    then show ?thesis
      using PLeastResponseTime by (simp add: LeastResponseTime_Update_def)
  qed
  then show ?thesis by simp
qed

theorem Update_not_in_pool_witness:
  "policy_wf (PLeastConnections (NewLeastConnections [''b0'', ''b1'']))
   \<and> ''b9'' \<notin> set (pool (PLeastConnections (NewLeastConnections [''b0'', ''b1''])))
   \<and> Update (PLeastConnections (NewLeastConnections [''b0'', ''b1''])) ''b9'' 0 =
       PLeastConnections (NewLeastConnections [''b0'', ''b1''])"
proof -
  let ?p = "PLeastConnections (NewLeastConnections [''b0'', ''b1''])"
  have wf: "policy_wf ?p"
    by (rule policy_wf_New) simp
  have out: "''b9'' \<notin> set (pool ?p)"
    by (simp add: NewLeastConnections_def)
  show ?thesis
    using wf out Update_not_in_pool [OF wf out, of 0 0] by (elim conjE) (intro conjI)
qed

text \<open>
  C1, amended. For the N2One and LeastConnections variants, in every state
  over a non-empty pool with counts below the largest \<open>int\<close>: if SelectServer returns b
  and Update(b) follows at once, as on the dial-failure path of \<open>handleClient\<close>, the
  state after the Update is the state before the SelectServer.
\<close>

theorem dial_failure_compensation:
  assumes "policy_wf p" and "compensating p" and "SelectServer p now = Inr (b, p')"
  shows "Update p' b now' = p \<and> handleClient p dial now now' = Inr p"
proof -
  have "Update p' b now' = p"
  proof (cases p)
    case (PN2One q)
    then show ?thesis
      using assms(3)
      by (auto simp: N2One_SelectServer_def N2One_Update_def split: list.splits)
  next
    case (PRoundRobin q)
    then show ?thesis using assms(2) by simp
  next
    case (PLeastConnections q)
    obtain s q' where sel: "LeastConnections_SelectServer q = (s, q')"
      by (cases "LeastConnections_SelectServer q")
    then have "b = s" "p' = PLeastConnections q'"
      using assms(3) PLeastConnections by simp_all
    moreover have "LeastConnections_Update q' s = q"
      using LeastConnections_select_update(2) [OF _ sel] assms(1) PLeastConnections by simp
    ultimately show ?thesis
      using PLeastConnections by simp
  next
    case (PLeastResponseTime q)
    then show ?thesis using assms(2) by simp
  qed
  then show ?thesis
    using assms(3) by (simp add: handleClient_def)
qed

theorem dial_failure_compensation_witness:
  "policy_wf (PLeastConnections (NewLeastConnections [''b0'', ''b1'']))
   \<and> compensating (PLeastConnections (NewLeastConnections [''b0'', ''b1'']))
   \<and> fst (LeastConnections_SelectServer (NewLeastConnections [''b0'', ''b1''])) = ''b0''
   \<and> map_get (lc_connections
         (snd (LeastConnections_SelectServer (NewLeastConnections [''b0'', ''b1'']))))
         ''b0'' = 1
   \<and> Update (PLeastConnections
         (snd (LeastConnections_SelectServer (NewLeastConnections [''b0'', ''b1'']))))
         ''b0'' 5 =
       PLeastConnections (NewLeastConnections [''b0'', ''b1''])
   \<and> handleClient (PLeastConnections (NewLeastConnections [''b0'', ''b1'']))
         (\<lambda>backend. False) 0 5 =
       Inr (PLeastConnections (NewLeastConnections [''b0'', ''b1'']))"
proof -
  let ?q = "NewLeastConnections [''b0'', ''b1'']"
  let ?p = "PLeastConnections ?q"
  have wf: "policy_wf ?p"
    by (rule policy_wf_New) simp
  have comp: "compensating ?p"
    by simp
  have b: "fst (LeastConnections_SelectServer ?q) = ''b0''"
    by (simp add: LeastConnections_SelectServer_def NewLeastConnections_def lc_scan_def
        lc_scan_step_def map_get_def max_int_def Let_def)
  have c: "map_get (lc_connections (snd (LeastConnections_SelectServer ?q))) ''b0'' = 1"
    by (simp add: LeastConnections_SelectServer_def NewLeastConnections_def lc_scan_def
        lc_scan_step_def map_get_def max_int_def int_incr_def Let_def)
  have sel: "SelectServer ?p 0 =
               Inr (''b0'', PLeastConnections (snd (LeastConnections_SelectServer ?q)))"
    using b by (cases "LeastConnections_SelectServer ?q") simp
  show ?thesis
    using wf comp b c dial_failure_compensation [OF wf comp sel, of 5 "\<lambda>backend. False"]
    by (elim conjE) (intro conjI)
qed

text \<open>
  The claim as it is worded, for every variant, fails for RoundRobin: over two backends
  the selection moves the index from 0 to 1, and Update, which does nothing, leaves it
  there.
\<close>

theorem dial_failure_compensation_counterexample:
  "policy_wf (PRoundRobin (NewRoundRobin [''b0'', ''b1'']))
   \<and> SelectServer (PRoundRobin (NewRoundRobin [''b0'', ''b1''])) 0 =
       Inr (''b0'', PRoundRobin \<lparr>rr_servers = [''b0'', ''b1''], rr_idx = 1\<rparr>)
   \<and> Update (PRoundRobin \<lparr>rr_servers = [''b0'', ''b1''], rr_idx = 1\<rparr>) ''b0'' 0 \<noteq>
       PRoundRobin (NewRoundRobin [''b0'', ''b1''])"
  by (simp add: RoundRobin_wf_def NewRoundRobin_def RoundRobin_SelectServer_def
      RoundRobin_Update_def go_rem_def)

text \<open>
  RoundRobin over two or more backends never returns to the state before the selection,
  and LeastResponseTime keeps the cursor where the selection put it and records a sample.
\<close>

lemma RoundRobin_not_compensated:
  assumes "RoundRobin_wf q" and "2 \<le> length (rr_servers q)"
    and "SelectServer (PRoundRobin q) now = Inr (b, p')"
  shows "Update p' b now' \<noteq> PRoundRobin q"
proof -
  let ?n = "int (length (rr_servers q))"
  have range: "0 \<le> rr_idx q" "rr_idx q < ?n"
    using assms(1) by (simp_all add: RoundRobin_wf_def)
  then have p': "p' = PRoundRobin (q\<lparr>rr_idx := go_rem (rr_idx q + 1) ?n\<rparr>)"
    using assms(3) by (auto simp: RoundRobin_SelectServer_def)
  have "go_rem (rr_idx q + 1) ?n = (rr_idx q + 1) mod ?n"
    using range by (intro go_rem_nonneg) auto
  moreover have "(rr_idx q + 1) mod ?n \<noteq> rr_idx q"
  proof (cases "rr_idx q + 1 = ?n")
    case True
    then show ?thesis using assms(2) by simp
  next
    case False
    then have "(rr_idx q + 1) mod ?n = rr_idx q + 1"
      using range by simp
    then show ?thesis by simp
  qed
  ultimately have "rr_idx (q\<lparr>rr_idx := go_rem (rr_idx q + 1) ?n\<rparr>) \<noteq> rr_idx q"
    by simp
  then have "q\<lparr>rr_idx := go_rem (rr_idx q + 1) ?n\<rparr> \<noteq> q"
    by metis
  then show ?thesis
    by (simp add: p' RoundRobin_Update_def)
qed

lemma LeastResponseTime_not_compensated:
  "map_sum id (\<lambda>(b, p'). (b, cursor (Update p' b 1000000000), backend_state (Update p' b 1000000000) b))
     (SelectServer (PLeastResponseTime (NewLeastResponseTime [''b0'', ''b1''])) 0) =
     Inr (''b0'', Some 0, ResponseTimes (Some []) (Some [1]) (Some 1))
   \<and> cursor (PLeastResponseTime (NewLeastResponseTime [''b0'', ''b1''])) = Some (- 1)
   \<and> backend_state (PLeastResponseTime (NewLeastResponseTime [''b0'', ''b1''])) ''b0'' =
       ResponseTimes (Some []) (Some []) (Some 0)"
  by (simp add: NewLeastResponseTime_def LeastResponseTime_SelectServer_serial
      LeastResponseTime_Update_def lrt_scan_def lrt_scan_step_def lrt_push_def try_send_def
      try_recv_def chan_cap_def map_get_def slice_get_def mean_def seconds_since_def
      go_rem_def Let_def)


section \<open>LeastResponseTime: the selection\<close>

lemma lrt_scan_step_pair:
  "lrt_scan_step avg s (m, sel) = (if map_get avg s < m then (map_get avg s, s) else (m, sel))"
  by (simp add: lrt_scan_step_def)

lemma lrt_scan_fold:
  assumes "fold (lrt_scan_step avg) xs (m, sel) = (m', sel')" and "m = map_get avg sel"
  shows "m' = map_get avg sel' \<and> m' \<le> m \<and> (\<forall>x \<in> set xs. m' \<le> map_get avg x)
         \<and> sel' \<in> insert sel (set xs)
         \<and> find (\<lambda>s. map_get avg s = m') (sel # xs) = Some sel'"
  using assms
proof (induction xs arbitrary: m sel)
  case Nil
  then show ?case by auto
next
  case (Cons x xs)
  show ?case
  proof (cases "map_get avg x < m")
    case True
    then have "fold (lrt_scan_step avg) xs (map_get avg x, x) = (m', sel')"
      using Cons.prems(1) by (simp add: lrt_scan_step_pair)
    from Cons.IH [OF this refl] True Cons.prems(2) show ?thesis by auto
  next
    case False
    then have "fold (lrt_scan_step avg) xs (m, sel) = (m', sel')"
      using Cons.prems(1) by (simp add: lrt_scan_step_pair)
    from Cons.IH [OF this Cons.prems(2)] False Cons.prems(2) show ?thesis by auto
  qed
qed

lemma lrt_scan_minimum:
  assumes "servers = first # rest" and "lrt_scan avg servers first = (m, sel)"
  shows "sel \<in> set servers" and "m = map_get avg sel"
    and "m = Min (set (map (map_get avg) servers))"
    and "find (\<lambda>s. map_get avg s = m) servers = Some sel"
proof -
  have r: "fold (lrt_scan_step avg) servers (map_get avg first, first) = (m, sel)"
    using assms(2) by (simp add: lrt_scan_def)
  note facts = lrt_scan_fold [OF r refl]
  show mem: "sel \<in> set servers"
    using facts assms(1) by auto
  show val: "m = map_get avg sel"
    using facts by simp
  have "Min (set (map (map_get avg) servers)) = m"
  proof (rule Min_eqI)
    show "finite (set (map (map_get avg) servers))" by simp
    show "m \<le> y" if "y \<in> set (map (map_get avg) servers)" for y
      using that facts by auto
    show "m \<in> set (map (map_get avg) servers)"
      using mem val by auto
  qed
  then show "m = Min (set (map (map_get avg) servers))" by simp
  have "find (\<lambda>s. map_get avg s = m) (first # first # rest) = Some sel"
    using facts unfolding assms(1) by blast
  then show "find (\<lambda>s. map_get avg s = m) servers = Some sel"
    unfolding assms(1) by (simp split: if_splits)
qed

lemma lrt_advance_find:
  assumes "servers \<noteq> []" and "- 1 \<le> cur"
  shows "lrt_advance k servers avg selected cur =
           Inr (case find (\<lambda>i. map_get avg (servers ! i) = map_get avg selected)
                       (map (\<lambda>j. nat ((cur + 1 + int j) mod int (length servers))) [0..<k]) of
                  Some i \<Rightarrow> int i
                | None \<Rightarrow> if k = 0 then cur else (cur + int k) mod int (length servers))"
  using assms(2)
proof (induction k arbitrary: cur)
  case 0
  then show ?case by simp
next
  case (Suc k)
  let ?n = "int (length servers)"
  let ?cur' = "(cur + 1) mod ?n"
  have n: "0 < ?n"
    using assms(1) by simp
  have rem: "go_rem (cur + 1) ?n = ?cur'"
    using Suc.prems n by (intro go_rem_nonneg) auto
  have range: "0 \<le> ?cur'" "?cur' < ?n"
    using n by simp_all
  have shift: "(?cur' + 1 + int j) mod ?n = (cur + 1 + int (Suc j)) mod ?n" for j
  proof -
    have "(?cur' + (1 + int j)) mod ?n = (cur + 1 + (1 + int j)) mod ?n"
      by (rule mod_add_left_eq)
    then show ?thesis by (simp add: add.assoc)
  qed
  have last: "(?cur' + int k) mod ?n = (cur + int (Suc k)) mod ?n"
  proof -
    have "(?cur' + int k) mod ?n = (cur + 1 + int k) mod ?n"
      by (rule mod_add_left_eq)
    then show ?thesis by (simp add: ac_simps)
  qed
  have cands: "map (\<lambda>j. nat ((cur + 1 + int j) mod ?n)) [0..<Suc k] =
               nat ?cur' # map (\<lambda>j. nat ((?cur' + 1 + int j) mod ?n)) [0..<k]"
    by (simp add: map_upt_Suc shift del: upt_Suc)
  have IH: "lrt_advance k servers avg selected ?cur' =
           Inr (case find (\<lambda>i. map_get avg (servers ! i) = map_get avg selected)
                       (map (\<lambda>j. nat ((?cur' + 1 + int j) mod ?n)) [0..<k]) of
                  Some i \<Rightarrow> int i
                | None \<Rightarrow> if k = 0 then ?cur' else (?cur' + int k) mod ?n)"
    using range by (intro Suc.IH) simp
  show ?case
  proof (cases "map_get avg (servers ! nat ?cur') = map_get avg selected")
    case True
    then show ?thesis
      using range unfolding cands by (simp add: rem Let_def)
  next
    case False
    have "lrt_advance (Suc k) servers avg selected cur =
            lrt_advance k servers avg selected ?cur'"
      using False range by (simp add: rem Let_def)
    then show ?thesis
      unfolding cands IH using False last
      by (cases k) (simp_all split: option.splits)
  qed
qed

lemma cursor_positions:
  assumes "servers \<noteq> []" and "- 1 \<le> cur"
  shows "map (\<lambda>j. nat ((cur + 1 + int j) mod int (length servers))) [0..<length servers] =
           rotate (nat (cur + 1)) [0..<length servers]"
proof (rule nth_equalityI)
  show "length (map (\<lambda>j. nat ((cur + 1 + int j) mod int (length servers)))
           [0..<length servers]) = length (rotate (nat (cur + 1)) [0..<length servers])"
    by simp
next
  fix j
  assume "j < length (map (\<lambda>j. nat ((cur + 1 + int j) mod int (length servers)))
           [0..<length servers])"
  then have j: "j < length servers" by simp
  have "cur + 1 + int j = int (nat (cur + 1) + j)"
    using assms(2) by simp
  then have "nat ((cur + 1 + int j) mod int (length servers)) =
               (nat (cur + 1) + j) mod length servers"
    by (metis nat_int zmod_int)
  moreover have "(nat (cur + 1) + j) mod length servers < length servers"
    using assms(1) by simp
  ultimately show "map (\<lambda>j. nat ((cur + 1 + int j) mod int (length servers)))
           [0..<length servers] ! j = rotate (nat (cur + 1)) [0..<length servers] ! j"
    using j by (simp add: nth_rotate)
qed

lemma lrt_push_Some:
  assumes "length ch \<le> chan_cap"
  shows "lrt_push (Some ch) now = Inr ((if length ch = chan_cap then tl ch else ch) @ [now])"
proof (cases "length ch = chan_cap")
  case True
  then obtain v rest where ch: "ch = v # rest"
    by (cases ch) (simp_all add: chan_cap_def)
  then show ?thesis
    using True by (simp add: lrt_push_def try_send_def try_recv_def)
next
  case False
  then show ?thesis
    using assms by (simp add: lrt_push_def try_send_def)
qed

lemma spec_SelectServer_finds:
  assumes "LeastResponseTime_wf p"
  obtains i where "spec_SelectServer p = Some i" and "i < length (lrt_servers p)"
    and "running_mean p (lrt_servers p ! i) = pool_minimum p"
proof -
  let ?servers = "lrt_servers p"
  let ?P = "\<lambda>i. running_mean p (?servers ! i) = pool_minimum p"
  have ne: "?servers \<noteq> []"
    using assms by (simp add: LeastResponseTime_wf_def)
  have "finite (set (map (running_mean p) ?servers))" "set (map (running_mean p) ?servers) \<noteq> {}"
    using ne by simp_all
  then have "pool_minimum p \<in> set (map (running_mean p) ?servers)"
    unfolding pool_minimum_def by (rule Min_in)
  then obtain k where k: "k < length ?servers" "?P k"
    by (auto simp: in_set_conv_nth)
  have "k \<in> set (cursor_order p)"
    using k(1) by (simp add: cursor_order_def)
  then have "find ?P (cursor_order p) \<noteq> None"
    using k(2) by (auto simp: find_None_iff)
  then obtain i where i: "find ?P (cursor_order p) = Some i"
    by auto
  then have "i \<in> set (cursor_order p)" "?P i"
    by (auto simp: find_Some_iff)
  then have "i < length ?servers" "?P i"
    by (simp_all add: cursor_order_def)
  with i that show ?thesis
    by (simp add: spec_SelectServer_def)
qed

lemma LeastResponseTime_SelectServer_nonempty:
  assumes "lrt_servers p \<noteq> []"
  shows "LeastResponseTime_SelectServer p now =
     (let selected = snd (lrt_scan (lrt_avgTime p) (lrt_servers p) (hd (lrt_servers p)))
      in case lrt_advance (length (lrt_servers p)) (lrt_servers p) (lrt_avgTime p)
                selected (lrt_current p) of
           Inl e \<Rightarrow> Inl e
         | Inr cur \<Rightarrow>
             (if cur < 0 \<or> int (length (lrt_servers p)) \<le> cur then Inl IndexOutOfRange
              else
                (let target = lrt_servers p ! nat cur
                 in case lrt_push (lrt_startTimes p target) now of
                      Inl e \<Rightarrow> Inl e
                    | Inr ch \<Rightarrow>
                        Inr (target,
                             p\<lparr>lrt_startTimes := (lrt_startTimes p)(target \<mapsto> ch),
                               lrt_current := cur\<rparr>))))"
  using assms
  by (cases "lrt_servers p") (simp_all add: LeastResponseTime_SelectServer_serial)

lemma LeastResponseTime_SelectServer_wf:
  assumes "LeastResponseTime_wf p"
  obtains i ch where "spec_SelectServer p = Some i" and "i < length (lrt_servers p)"
    and "lrt_startTimes p (lrt_servers p ! i) = Some ch" and "length ch \<le> chan_cap"
    and "LeastResponseTime_SelectServer p now =
           Inr (lrt_servers p ! i,
                p\<lparr>lrt_startTimes := (lrt_startTimes p)
                       (lrt_servers p ! i \<mapsto> (if length ch = chan_cap then tl ch else ch) @ [now]),
                  lrt_current := int i\<rparr>)"
proof -
  let ?servers = "lrt_servers p"
  let ?avg = "lrt_avgTime p"
  have ne: "?servers \<noteq> []" and cur: "- 1 \<le> lrt_current p"
    using assms by (simp_all add: LeastResponseTime_wf_def)
  obtain first rest where servers: "?servers = first # rest"
    using ne by (cases ?servers) simp_all
  have first: "hd ?servers = first"
    using servers by simp
  obtain m sel where scan: "lrt_scan ?avg ?servers first = (m, sel)"
    by (cases "lrt_scan ?avg ?servers first")
  note min = lrt_scan_minimum [OF servers scan]
  have target: "map_get ?avg sel = pool_minimum p"
    using min(2,3) by (simp add: pool_minimum_def running_mean_def [abs_def])
  obtain i where i: "spec_SelectServer p = Some i" "i < length ?servers"
    using spec_SelectServer_finds [OF assms] by metis
  have found: "find (\<lambda>i. map_get ?avg (?servers ! i) = map_get ?avg sel)
                 (map (\<lambda>j. nat ((lrt_current p + 1 + int j) mod int (length ?servers)))
                    [0..<length ?servers]) = Some i"
    using i(1)
    by (simp add: cursor_positions [OF ne cur] target spec_SelectServer_def cursor_order_def
        running_mean_def)
  have adv: "lrt_advance (length ?servers) ?servers ?avg sel (lrt_current p) = Inr (int i)"
    by (simp add: lrt_advance_find [OF ne cur] found)
  have "?servers ! i \<in> set ?servers"
    using i(2) by simp
  then obtain ch where ch: "lrt_startTimes p (?servers ! i) = Some ch" "length ch \<le> chan_cap"
    using assms by (fastforce simp: LeastResponseTime_wf_def)
  have "LeastResponseTime_SelectServer p now =
           Inr (?servers ! i,
                p\<lparr>lrt_startTimes := (lrt_startTimes p)
                       (?servers ! i \<mapsto> (if length ch = chan_cap then tl ch else ch) @ [now]),
                  lrt_current := int i\<rparr>)"
    using i(2) ch
    by (simp add: LeastResponseTime_SelectServer_nonempty [OF ne] first scan adv lrt_push_Some
        Let_def del: lrt_advance.simps)
  with i ch that show ?thesis by blast
qed

lemma LeastResponseTime_wf_SelectServer:
  assumes "LeastResponseTime_wf p"
  obtains b p' where "LeastResponseTime_SelectServer p now = Inr (b, p')"
    and "LeastResponseTime_wf p'"
proof -
  obtain i ch where i: "i < length (lrt_servers p)"
    and ch: "lrt_startTimes p (lrt_servers p ! i) = Some ch" "length ch \<le> chan_cap"
    and sel: "LeastResponseTime_SelectServer p now =
           Inr (lrt_servers p ! i,
                p\<lparr>lrt_startTimes := (lrt_startTimes p)
                       (lrt_servers p ! i \<mapsto> (if length ch = chan_cap then tl ch else ch) @ [now]),
                  lrt_current := int i\<rparr>)"
    using LeastResponseTime_SelectServer_wf [OF assms, of now] by metis
  have "length ((if length ch = chan_cap then tl ch else ch) @ [now]) \<le> chan_cap"
    using ch(2) by (auto simp: chan_cap_def)
  moreover have "lrt_servers p ! i \<in> set (lrt_servers p)"
    using i by simp
  ultimately have "LeastResponseTime_wf
      (p\<lparr>lrt_startTimes := (lrt_startTimes p)
                       (lrt_servers p ! i \<mapsto> (if length ch = chan_cap then tl ch else ch) @ [now]),
                  lrt_current := int i\<rparr>)"
    using assms i unfolding LeastResponseTime_wf_def by auto
  with sel that show ?thesis by blast
qed

lemma LeastResponseTime_wf_Update:
  assumes "LeastResponseTime_wf p"
  shows "LeastResponseTime_wf (LeastResponseTime_Update p server now)"
proof (cases "lrt_startTimes p server")
  case None
  then show ?thesis
    using assms by (simp add: LeastResponseTime_Update_def)
next
  case (Some ch)
  show ?thesis
  proof (cases ch)
    case Nil
    then show ?thesis
      using assms Some by (simp add: LeastResponseTime_Update_def try_recv_def)
  next
    case (Cons start rest)
    have mem: "server \<in> set (lrt_servers p)"
      using assms Some by (auto simp: LeastResponseTime_wf_def)
    then have "length ch \<le> chan_cap"
      using assms Some by (fastforce simp: LeastResponseTime_wf_def)
    then have "length rest \<le> chan_cap"
      using Cons by simp
    then show ?thesis
      using assms Some Cons mem
      unfolding LeastResponseTime_wf_def
      by (auto simp: LeastResponseTime_Update_def try_recv_def Let_def)
  qed
qed

lemma lrt_run_wf:
  assumes "LeastResponseTime_wf p"
  shows "\<exists>bs p'. run (PLeastResponseTime p) cs = Inr (bs, PLeastResponseTime p')
                \<and> LeastResponseTime_wf p'"
  using assms
proof (induction cs arbitrary: p)
  case Nil
  then show ?case by simp
next
  case (Cons c cs)
  show ?case
  proof (cases c)
    case (Select now)
    obtain b q where sel: "LeastResponseTime_SelectServer p now = Inr (b, q)"
      and wf: "LeastResponseTime_wf q"
      using LeastResponseTime_wf_SelectServer [OF Cons.prems, of now] by metis
    from Cons.IH [OF wf] obtain bs p' where
      "run (PLeastResponseTime q) cs = Inr (bs, PLeastResponseTime p')" "LeastResponseTime_wf p'"
      by blast
    then show ?thesis
      using Select sel by simp
  next
    case (Upd server now)
    from Cons.IH [OF LeastResponseTime_wf_Update [OF Cons.prems, of server now]]
    show ?thesis
      using Upd by simp
  qed
qed

lemma next_tied_position:
  assumes "i < n" and "j < n" and "j \<noteq> i" and "P j"
    and "find P (rotate (Suc i) [0..<n]) = Some i'"
  shows "i' \<noteq> i"
proof -
  let ?xs = "rotate (Suc i) [0..<n]"
  have len: "length ?xs = n" by simp
  have dist: "distinct ?xs" by simp
  have "Suc i + (n - 1) = i + n"
    using assms(1) by simp
  then have wrap: "(Suc i + (n - 1)) mod n = i"
    using assms(1) by (simp del: add_Suc)
  have "?xs ! (n - 1) = [0..<n] ! ((Suc i + (n - 1)) mod length [0..<n])"
    using assms(1) by (intro nth_rotate) simp
  also have "\<dots> = [0..<n] ! i"
    by (simp only: length_upt diff_zero wrap)
  also have "\<dots> = i"
    using assms(1) by simp
  finally have last: "?xs ! (n - 1) = i" .
  have "j \<in> set ?xs"
    using assms(2) by simp
  then obtain dj where dj: "dj < n" "?xs ! dj = j"
    unfolding in_set_conv_nth len by blast
  obtain d where d: "d < n" "i' = ?xs ! d" "\<forall>k<d. \<not> P (?xs ! k)"
    using assms(5) unfolding find_Some_iff len by blast
  have "d \<le> dj"
  proof (rule ccontr)
    assume "\<not> d \<le> dj"
    then have "\<not> P (?xs ! dj)"
      using d(3) by simp
    then show False
      using dj(2) assms(4) by simp
  qed
  moreover have "dj \<noteq> n - 1"
    using last dj(2) assms(3) by auto
  ultimately have "d \<noteq> n - 1"
    using dj(1) by simp
  then have "?xs ! d \<noteq> ?xs ! (n - 1)"
    using dist d(1) assms(1) len by (simp add: nth_eq_iff_index_eq)
  then show ?thesis
    using d(2) last by simp
qed

section \<open>LeastResponseTime: the two phases\<close>

text \<open>
  A call on its own. In every state of the LeastResponseTime policy over a non-empty
  pool, a SelectServer that no other call comes between returns the backend that the two
  phases of the specification determine: the scan finds the minimal running mean of the
  pool, at its first occurrence in pool order; the cursor moves to the first position
  after its previous one, wrapping around, whose backend has that minimal mean, and that
  backend is returned. The pool and the means are left as they were, so the mean of the
  returned backend is the pool minimum; and when another position is tied at the
  minimum, the next such call returns a position other than the one just returned,
  again one with the minimal mean.
\<close>

lemma LeastResponseTime_two_phase:
  assumes "LeastResponseTime_wf p"
  shows "\<exists>i p'. spec_SelectServer p = Some i \<and> i < length (lrt_servers p)
           \<and> LeastResponseTime_SelectServer p now = Inr (lrt_servers p ! i, p')
           \<and> lrt_current p' = int i
           \<and> lrt_servers p' = lrt_servers p \<and> lrt_avgTime p' = lrt_avgTime p
           \<and> running_mean p (lrt_servers p ! i) = pool_minimum p
           \<and> fst (lrt_scan (lrt_avgTime p) (lrt_servers p) (hd (lrt_servers p))) = pool_minimum p
           \<and> find (\<lambda>s. running_mean p s = pool_minimum p) (lrt_servers p) =
               Some (snd (lrt_scan (lrt_avgTime p) (lrt_servers p) (hd (lrt_servers p))))
           \<and> (\<forall>j < length (lrt_servers p).
                 j \<noteq> i \<and> running_mean p (lrt_servers p ! j) = pool_minimum p \<longrightarrow>
                 (\<exists>i' p''. LeastResponseTime_SelectServer p' now' = Inr (lrt_servers p ! i', p'')
                    \<and> lrt_current p'' = int i' \<and> i' < length (lrt_servers p) \<and> i' \<noteq> i
                    \<and> running_mean p (lrt_servers p ! i') = pool_minimum p))"
proof -
  let ?servers = "lrt_servers p"
  obtain i ch where i: "spec_SelectServer p = Some i" "i < length ?servers"
    and sel: "LeastResponseTime_SelectServer p now =
           Inr (?servers ! i,
                p\<lparr>lrt_startTimes := (lrt_startTimes p)
                       (?servers ! i \<mapsto> (if length ch = chan_cap then tl ch else ch) @ [now]),
                  lrt_current := int i\<rparr>)"
    using LeastResponseTime_SelectServer_wf [OF assms, of now] by metis
  define p' where "p' = p\<lparr>lrt_startTimes := (lrt_startTimes p)
                       (?servers ! i \<mapsto> (if length ch = chan_cap then tl ch else ch) @ [now]),
                  lrt_current := int i\<rparr>"
  have same: "lrt_servers p' = ?servers" "lrt_avgTime p' = lrt_avgTime p" "lrt_current p' = int i"
    by (simp_all add: p'_def)
  have mean: "running_mean p' = running_mean p" and minimum: "pool_minimum p' = pool_minimum p"
    by (simp_all add: running_mean_def [abs_def] pool_minimum_def same)
  have min_i: "running_mean p (?servers ! i) = pool_minimum p"
    using i(1) by (auto simp: spec_SelectServer_def find_Some_iff)
  have ne: "?servers \<noteq> []"
    using assms by (simp add: LeastResponseTime_wf_def)
  then obtain rest where servers: "?servers = hd ?servers # rest"
    by (cases ?servers) simp_all
  obtain m s where scan: "lrt_scan (lrt_avgTime p) ?servers (hd ?servers) = (m, s)"
    by (cases "lrt_scan (lrt_avgTime p) ?servers (hd ?servers)")
  note phase_a = lrt_scan_minimum [OF servers scan]
  have a1: "fst (lrt_scan (lrt_avgTime p) ?servers (hd ?servers)) = pool_minimum p"
    using phase_a(3) scan by (simp add: pool_minimum_def running_mean_def [abs_def])
  have a2: "find (\<lambda>s. running_mean p s = pool_minimum p) ?servers =
              Some (snd (lrt_scan (lrt_avgTime p) ?servers (hd ?servers)))"
    using phase_a(4) a1 scan by (simp add: running_mean_def)
  have wf': "LeastResponseTime_wf p'"
    using LeastResponseTime_wf_SelectServer [OF assms, of now] sel
    unfolding p'_def by (metis Inr_inject prod.inject)
  have spread: "\<exists>i' p''. LeastResponseTime_SelectServer p' now' = Inr (?servers ! i', p'')
                  \<and> lrt_current p'' = int i' \<and> i' < length ?servers \<and> i' \<noteq> i
                  \<and> running_mean p (?servers ! i') = pool_minimum p"
    if j: "j < length ?servers" "j \<noteq> i" "running_mean p (?servers ! j) = pool_minimum p" for j
  proof -
    obtain i' ch' where i': "spec_SelectServer p' = Some i'" "i' < length (lrt_servers p')"
      and sel': "LeastResponseTime_SelectServer p' now' =
           Inr (lrt_servers p' ! i',
                p'\<lparr>lrt_startTimes := (lrt_startTimes p')
                       (lrt_servers p' ! i' \<mapsto> (if length ch' = chan_cap then tl ch' else ch') @ [now']),
                  lrt_current := int i'\<rparr>)"
      using LeastResponseTime_SelectServer_wf [OF wf', of now'] by metis
    have found: "find (\<lambda>k. running_mean p (?servers ! k) = pool_minimum p)
                   (rotate (Suc i) [0..<length ?servers]) = Some i'"
      using i'(1)
      by (simp add: spec_SelectServer_def cursor_order_def same mean minimum nat_add_distrib
          del: rotate_Suc)
    have "i' \<noteq> i"
      using next_tied_position [OF i(2) j(1) j(2) j(3) found] .
    moreover have "running_mean p (?servers ! i') = pool_minimum p"
      using found by (auto simp: find_Some_iff)
    ultimately show ?thesis
      using sel' i'(2) by (simp add: same)
  qed
  show ?thesis
    using i sel same min_i a1 a2 spread unfolding p'_def [symmetric] by blast
qed

lemma LeastResponseTime_two_phase_example:
  "LeastResponseTime_wf
     \<lparr>lrt_servers = [''b0'', ''b1'', ''b2''],
      lrt_avgTime = [''b0'' \<mapsto> 1 / 2, ''b1'' \<mapsto> 0, ''b2'' \<mapsto> 0],
      lrt_startTimes = [''b0'' \<mapsto> [], ''b1'' \<mapsto> [], ''b2'' \<mapsto> []],
      lrt_pastTimes = [''b0'' \<mapsto> [1 / 2], ''b1'' \<mapsto> [], ''b2'' \<mapsto> []],
      lrt_current = 1\<rparr>
   \<and> (\<exists>p' p''.
         LeastResponseTime_SelectServer
           \<lparr>lrt_servers = [''b0'', ''b1'', ''b2''],
            lrt_avgTime = [''b0'' \<mapsto> 1 / 2, ''b1'' \<mapsto> 0, ''b2'' \<mapsto> 0],
            lrt_startTimes = [''b0'' \<mapsto> [], ''b1'' \<mapsto> [], ''b2'' \<mapsto> []],
            lrt_pastTimes = [''b0'' \<mapsto> [1 / 2], ''b1'' \<mapsto> [], ''b2'' \<mapsto> []],
            lrt_current = 1\<rparr> 5 = Inr (''b2'', p')
         \<and> LeastResponseTime_SelectServer p' 6 = Inr (''b1'', p''))"
proof -
  let ?p = "\<lparr>lrt_servers = [''b0'', ''b1'', ''b2''],
      lrt_avgTime = [''b0'' \<mapsto> 1 / 2, ''b1'' \<mapsto> 0, ''b2'' \<mapsto> 0],
      lrt_startTimes = [''b0'' \<mapsto> [], ''b1'' \<mapsto> [], ''b2'' \<mapsto> []],
      lrt_pastTimes = [''b0'' \<mapsto> [1 / 2], ''b1'' \<mapsto> [], ''b2'' \<mapsto> []],
      lrt_current = 1\<rparr>"
  have wf: "LeastResponseTime_wf ?p"
    by (simp add: LeastResponseTime_wf_def chan_cap_def insert_commute)
  have means: "running_mean ?p ''b0'' = 1 / 2" "running_mean ?p ''b1'' = 0"
    "running_mean ?p ''b2'' = 0"
    by (simp_all add: running_mean_def map_get_def)
  have minimum: "pool_minimum ?p = 0"
    by (simp add: pool_minimum_def means)
  have order: "cursor_order ?p = [2, 0, 1]"
    by (simp add: cursor_order_def upt_rec numeral_eq_Suc)
  have spec: "spec_SelectServer ?p = Some 2"
    by (simp add: spec_SelectServer_def order minimum means)
  obtain i p' where i: "spec_SelectServer ?p = Some i"
    and sel: "LeastResponseTime_SelectServer ?p 5 = Inr (lrt_servers ?p ! i, p')"
    and next_sel: "\<forall>j < length (lrt_servers ?p).
                 j \<noteq> i \<and> running_mean ?p (lrt_servers ?p ! j) = pool_minimum ?p \<longrightarrow>
                 (\<exists>i' p''. LeastResponseTime_SelectServer p' 6 = Inr (lrt_servers ?p ! i', p'')
                    \<and> lrt_current p'' = int i' \<and> i' < length (lrt_servers ?p) \<and> i' \<noteq> i
                    \<and> running_mean ?p (lrt_servers ?p ! i') = pool_minimum ?p)"
    using LeastResponseTime_two_phase [OF wf, of 5 6] by blast
  have i2: "i = 2"
    using i spec by simp
  have first: "LeastResponseTime_SelectServer ?p 5 = Inr (''b2'', p')"
    using sel by (simp add: i2)
  have "1 < length (lrt_servers ?p) \<and> (1::nat) \<noteq> i
          \<and> running_mean ?p (lrt_servers ?p ! 1) = pool_minimum ?p"
    by (simp add: i2 means minimum)
  then obtain i' p'' where
    second: "LeastResponseTime_SelectServer p' 6 = Inr (lrt_servers ?p ! i', p'')"
    and i': "i' < length (lrt_servers ?p)" "i' \<noteq> i"
      "running_mean ?p (lrt_servers ?p ! i') = pool_minimum ?p"
    using next_sel by blast
  have "i' = 0 \<or> i' = 1"
    using i'(1,2) i2 by auto
  then have "i' = 1"
    using i'(3) by (auto simp: means minimum)
  then have "LeastResponseTime_SelectServer p' 6 = Inr (''b1'', p'')"
    using second by simp
  with wf first show ?thesis by blast
qed

text \<open>
  C2. The claim holds of calls that run one after the other, and fails on the code when
  two calls overlap: \<open>SelectServer\<close> releases the mutex before its \<open>return\<close> statement
  reads \<open>p.servers[p.current]\<close>. On a policy freshly constructed over b0 and b1, the
  first call chooses position 0 in its two phases and queues its timestamp for b0; when
  the second call runs its critical section before the first one returns, both calls
  return b1, and the first returns a backend that its two phases did not choose. Run one
  after the other, the two calls return b0 and b1.
\<close>

theorem LeastResponseTime_return_after_unlock:
  "spec_SelectServer (NewLeastResponseTime [''b0'', ''b1'']) = Some 0
   \<and> map_sum id (\<lambda>p. (lrt_current p, lrt_startTimes p ''b0'', lrt_startTimes p ''b1''))
        (LeastResponseTime_SelectServer_locked (NewLeastResponseTime [''b0'', ''b1'']) 0) =
       Inr (0, Some [0], Some [])
   \<and> map_sum id fst
        (lrt_interleaved (NewLeastResponseTime [''b0'', ''b1''])
           [Locked 0, Locked 1, Return, Return]) =
       Inr [''b1'', ''b1'']
   \<and> map_sum id fst
        (run (PLeastResponseTime (NewLeastResponseTime [''b0'', ''b1'']))
           [Select 0, Select 1]) =
       Inr [''b0'', ''b1'']"
proof -
  let ?fresh = "NewLeastResponseTime [''b0'', ''b1'']"
  have spec: "spec_SelectServer ?fresh = Some 0"
    by (simp add: spec_SelectServer_def cursor_order_def pool_minimum_def running_mean_def
        NewLeastResponseTime_def map_get_def upt_rec numeral_eq_Suc)
  have locked: "map_sum id (\<lambda>p. (lrt_current p, lrt_startTimes p ''b0'', lrt_startTimes p ''b1''))
        (LeastResponseTime_SelectServer_locked ?fresh 0) = Inr (0, Some [0], Some [])"
    by (simp add: NewLeastResponseTime_def LeastResponseTime_SelectServer_locked_def
        lrt_scan_def lrt_scan_step_def lrt_push_def try_send_def chan_cap_def map_get_def
        go_rem_def Let_def)
  have overlap: "map_sum id fst
        (lrt_interleaved ?fresh [Locked 0, Locked 1, Return, Return]) = Inr [''b1'', ''b1'']"
    by (simp add: NewLeastResponseTime_def LeastResponseTime_SelectServer_locked_def
        LeastResponseTime_SelectServer_return_def lrt_scan_def lrt_scan_step_def lrt_push_def
        try_send_def chan_cap_def map_get_def go_rem_def Let_def)
  have serial: "map_sum id fst
        (run (PLeastResponseTime ?fresh) [Select 0, Select 1]) = Inr [''b0'', ''b1'']"
    by (simp add: NewLeastResponseTime_def LeastResponseTime_SelectServer_serial
        lrt_scan_def lrt_scan_step_def lrt_push_def try_send_def chan_cap_def map_get_def
        go_rem_def Let_def)
  show ?thesis
    using spec locked overlap serial by (intro conjI)
qed

section \<open>LeastResponseTime: the bounded queues\<close>

lemma lrt_single_select:
  assumes "length ch < chan_cap" and "c = - 1 \<or> c = 0"
  shows "LeastResponseTime_SelectServer
           \<lparr>lrt_servers = [b], lrt_avgTime = [b \<mapsto> 0], lrt_startTimes = [b \<mapsto> ch],
            lrt_pastTimes = [b \<mapsto> []], lrt_current = c\<rparr> now =
         Inr (b, \<lparr>lrt_servers = [b], lrt_avgTime = [b \<mapsto> 0], lrt_startTimes = [b \<mapsto> ch @ [now]],
                  lrt_pastTimes = [b \<mapsto> []], lrt_current = 0\<rparr>)"
  using assms
  by (auto simp: LeastResponseTime_SelectServer_serial lrt_scan_def lrt_scan_step_def
      lrt_push_def try_send_def go_rem_def map_get_def Let_def)

lemma lrt_fill:
  assumes "0 < n" and "n \<le> chan_cap"
  shows "run (PLeastResponseTime (NewLeastResponseTime [b])) (replicate n (Select t)) =
           Inr (replicate n b,
                PLeastResponseTime
                  \<lparr>lrt_servers = [b], lrt_avgTime = [b \<mapsto> 0],
                   lrt_startTimes = [b \<mapsto> replicate n t], lrt_pastTimes = [b \<mapsto> []],
                   lrt_current = 0\<rparr>)"
proof -
  define S where "S ch = \<lparr>lrt_servers = [b], lrt_avgTime = [b \<mapsto> 0],
                   lrt_startTimes = [b \<mapsto> ch], lrt_pastTimes = [b \<mapsto> []],
                   lrt_current = 0\<rparr>" for ch
  have sel: "LeastResponseTime_SelectServer (S ch) now = Inr (b, S (ch @ [now]))"
    if "length ch < chan_cap" for ch now
    unfolding S_def by (rule lrt_single_select [OF that disjI2 [OF refl]])
  have more: "run (PLeastResponseTime (S ch)) (replicate k (Select t)) =
                Inr (replicate k b, PLeastResponseTime (S (ch @ replicate k t)))"
    if "length ch + k \<le> chan_cap" for ch k
    using that
  proof (induction k arbitrary: ch)
    case 0
    then show ?case by simp
  next
    case (Suc k)
    have "length ch < chan_cap" and "length (ch @ [t]) + k \<le> chan_cap"
      using Suc.prems by simp_all
    then show ?case
      using Suc.IH [of "ch @ [t]"] by (simp add: sel)
  qed
  have fresh: "NewLeastResponseTime [b] =
                 \<lparr>lrt_servers = [b], lrt_avgTime = [b \<mapsto> 0], lrt_startTimes = [b \<mapsto> []],
                  lrt_pastTimes = [b \<mapsto> []], lrt_current = - 1\<rparr>"
    by (simp add: NewLeastResponseTime_def)
  have "length ([]::time list) < chan_cap"
    by (simp add: chan_cap_def)
  from lrt_single_select [OF this disjI1 [OF refl], of b t]
  have first: "LeastResponseTime_SelectServer (NewLeastResponseTime [b]) t = Inr (b, S [t])"
    unfolding fresh S_def by simp
  obtain m where n: "n = Suc m"
    using assms(1) by (cases n) simp_all
  have "length [t] + m \<le> chan_cap"
    using assms(2) n by simp
  from more [OF this] show ?thesis
    unfolding n S_def by (simp add: first S_def)
qed

text \<open>
  C7. After any sequence of calls on a LeastResponseTime policy constructed over a
  non-empty pool, no queue of pending start times holds more than 10000 entries, and a
  further SelectServer returns (it neither blocks nor panics): the queue of the backend
  it returns gets the new timestamp at its end, after its oldest entry has been removed
  if it held 10000.
\<close>

theorem startTimes_bounded:
  assumes "servers \<noteq> []"
  shows "\<exists>bs p. run (PLeastResponseTime (NewLeastResponseTime servers)) cs =
                  Inr (bs, PLeastResponseTime p)
           \<and> (\<forall>b ch. lrt_startTimes p b = Some ch \<longrightarrow> length ch \<le> 10000)
           \<and> (\<forall>now. \<exists>b ch p'. LeastResponseTime_SelectServer p now = Inr (b, p')
                  \<and> lrt_startTimes p b = Some ch
                  \<and> lrt_startTimes p' b =
                      Some ((if length ch = 10000 then tl ch else ch) @ [now])
                  \<and> length ((if length ch = 10000 then tl ch else ch) @ [now]) \<le> 10000)"
proof -
  have "LeastResponseTime_wf (NewLeastResponseTime servers)"
    using policy_wf_New(4) [OF assms] by simp
  then obtain bs p where run: "run (PLeastResponseTime (NewLeastResponseTime servers)) cs =
                  Inr (bs, PLeastResponseTime p)"
    and wf: "LeastResponseTime_wf p"
    using lrt_run_wf by blast
  have bound: "length ch \<le> 10000" if "lrt_startTimes p b = Some ch" for b ch
  proof -
    have "b \<in> set (lrt_servers p)"
      using wf that by (auto simp: LeastResponseTime_wf_def)
    then have "length (the (lrt_startTimes p b)) \<le> chan_cap"
      using wf by (simp add: LeastResponseTime_wf_def)
    then show ?thesis
      using that by (simp add: chan_cap_def)
  qed
  have push: "\<exists>b ch p'. LeastResponseTime_SelectServer p now = Inr (b, p')
                  \<and> lrt_startTimes p b = Some ch
                  \<and> lrt_startTimes p' b =
                      Some ((if length ch = 10000 then tl ch else ch) @ [now])
                  \<and> length ((if length ch = 10000 then tl ch else ch) @ [now]) \<le> 10000" for now
  proof -
    obtain i ch where ch: "lrt_startTimes p (lrt_servers p ! i) = Some ch"
      "length ch \<le> chan_cap"
      and sel: "LeastResponseTime_SelectServer p now =
           Inr (lrt_servers p ! i,
                p\<lparr>lrt_startTimes := (lrt_startTimes p)
                       (lrt_servers p ! i \<mapsto> (if length ch = chan_cap then tl ch else ch) @ [now]),
                  lrt_current := int i\<rparr>)"
      using LeastResponseTime_SelectServer_wf [OF wf, of now] by metis
    have "length ((if length ch = 10000 then tl ch else ch) @ [now]) \<le> 10000"
      using ch(2) by (auto simp: chan_cap_def)
    then show ?thesis
      using ch(1) sel by (simp add: chan_cap_def)
  qed
  show ?thesis
    using run bound push by blast
qed

text \<open>
  A pool of one backend selected 10000 times without an Update fills its queue; the
  next selection drops the oldest entry.
\<close>

theorem startTimes_bounded_witness:
  "[''b0''] \<noteq> []
   \<and> (\<exists>bs p p'.
         run (PLeastResponseTime (NewLeastResponseTime [''b0''])) (replicate 10000 (Select 0)) =
           Inr (bs, PLeastResponseTime p)
         \<and> lrt_startTimes p ''b0'' = Some (replicate 10000 0)
         \<and> LeastResponseTime_SelectServer p 1 = Inr (''b0'', p')
         \<and> lrt_startTimes p' ''b0'' = Some (replicate 9999 0 @ [1]))"
proof -
  let ?full = "\<lparr>lrt_servers = [''b0''], lrt_avgTime = [''b0'' \<mapsto> 0],
                 lrt_startTimes = [''b0'' \<mapsto> replicate 10000 0],
                 lrt_pastTimes = [''b0'' \<mapsto> []], lrt_current = 0\<rparr>"
  have ne: "[''b0''] \<noteq> []"
    by simp
  have filled: "run (PLeastResponseTime (NewLeastResponseTime [''b0'']))
                  (replicate 10000 (Select 0)) =
                Inr (replicate 10000 ''b0'', PLeastResponseTime ?full)"
    by (rule lrt_fill) (simp_all add: chan_cap_def)
  obtain bs p where run: "run (PLeastResponseTime (NewLeastResponseTime [''b0'']))
                  (replicate 10000 (Select 0)) = Inr (bs, PLeastResponseTime p)"
    and push: "\<forall>now. \<exists>b ch p'. LeastResponseTime_SelectServer p now = Inr (b, p')
                  \<and> lrt_startTimes p b = Some ch
                  \<and> lrt_startTimes p' b =
                      Some ((if length ch = 10000 then tl ch else ch) @ [now])
                  \<and> length ((if length ch = 10000 then tl ch else ch) @ [now]) \<le> 10000"
    using startTimes_bounded [OF ne, of "replicate 10000 (Select 0)"] by blast
  have p: "p = ?full"
    using run filled by simp
  obtain b ch p' where sel: "LeastResponseTime_SelectServer p 1 = Inr (b, p')"
    and ch: "lrt_startTimes p b = Some ch"
    and ch': "lrt_startTimes p' b = Some ((if length ch = 10000 then tl ch else ch) @ [1])"
    using push by blast
  have b: "b = ''b0''" and full: "ch = replicate 10000 0"
    using ch unfolding p by (simp_all split: if_splits)
  have "lrt_startTimes p' ''b0'' = Some (replicate 9999 0 @ [1])"
    using ch' unfolding b full by (simp add: tl_replicate)
  moreover have "lrt_startTimes p ''b0'' = Some (replicate 10000 0)"
    unfolding p by simp
  ultimately show ?thesis
    using ne run sel unfolding b by blast
qed

section \<open>Startup without backends\<close>

text \<open>
  Started with the \<open>-s\<close> flag missing or empty, whatever the other flags are and whether
  or not the port can be bound, \<open>main\<close> ends in the fatal error "No backend servers
  specified" and does not reach the accept loop.
\<close>

lemma main_no_backends_fatal:
  assumes "flag_s args = None \<or> flag_s args = Some []"
  shows "main_startup args listen = Fatalf NoBackendServers
         \<and> (\<forall>policy. main_startup args listen \<noteq> AcceptLoop policy)"
  using assms by (auto simp: main_startup_def)

lemma main_no_backends_fatal_example:
  "main_startup \<lparr>flag_a = Some ''LeastConnections'', flag_p = Some 9000, flag_s = Some []\<rparr>
         (\<lambda>port. True) = Fatalf NoBackendServers
   \<and> main_startup \<lparr>flag_a = None, flag_p = None, flag_s = None\<rparr> (\<lambda>port. True) =
       Fatalf NoBackendServers"
  by (simp add: main_startup_def)

text \<open>
  The accept loop is reached exactly with a non-empty \<open>-s\<close> text, a known policy name and
  a port that can be bound.
\<close>

lemma main_reaches_accept_loop:
  "main_startup args listen = AcceptLoop policy \<Longrightarrow>
     (\<exists>v. flag_s args = Some v \<and> v \<noteq> []
          \<and> new_policy (case flag_a args of None \<Rightarrow> ''RoundRobin'' | Some a \<Rightarrow> a) (Fields v) =
              Some policy)"
  by (auto simp: main_startup_def Let_def split: option.splits if_splits)

text \<open>
  The guard looks at the text of the flag, not at the list of backends in it. A text
  that is not empty and holds no backend passes the guard; every text of blanks is one.
\<close>

lemma space_width_blank: "space_width (CHR '' '' # cs) = 1"
  by (simp add: space_width_def white_space_def)

lemma Fields_blanks: "Fields (replicate n (CHR '' '')) = []"
proof -
  have "Fields_from [] 0 (replicate n (CHR '' '')) = []"
    by (induction n) (simp_all add: space_width_blank)
  then show ?thesis by (simp add: Fields_def)
qed

lemma main_without_backends:
  assumes "flag_s args = Some v" and "v \<noteq> []" and "Fields v = []"
    and "new_policy (case flag_a args of None \<Rightarrow> ''RoundRobin'' | Some a \<Rightarrow> a) [] = Some policy"
    and "listen (case flag_p args of None \<Rightarrow> 8080 | Some n \<Rightarrow> n)"
  shows "main_startup args listen = AcceptLoop policy"
  using assms by (simp add: main_startup_def)

lemma main_blank_text:
  "main_startup \<lparr>flag_a = None, flag_p = None, flag_s = Some (replicate (Suc n) (CHR '' ''))\<rparr>
     (\<lambda>port. True) = AcceptLoop (PRoundRobin (NewRoundRobin []))"
proof -
  let ?v = "replicate (Suc n) (CHR '' '')"
  let ?args = "\<lparr>flag_a = None, flag_p = None, flag_s = Some ?v\<rparr>"
  have "flag_s ?args = Some ?v" and "?v \<noteq> []"
    by simp_all
  moreover have "Fields ?v = []"
    by (rule Fields_blanks)
  moreover have "new_policy (case flag_a ?args of None \<Rightarrow> ''RoundRobin'' | Some a \<Rightarrow> a) [] =
                   Some (PRoundRobin (NewRoundRobin []))"
    by (simp add: new_policy_def)
  ultimately show ?thesis
    by (rule main_without_backends) simp
qed

text \<open>
  C8. The claim fails on the code. Started with \<open>-s " "\<close>, a text of one blank and so an
  empty list of backends, and with the other flags at their defaults, \<open>main\<close> passes the
  guard \<open>len(serversFlag) == 0\<close>, builds a RoundRobin policy over an empty pool, listens
  and reaches the accept loop; the first connection then panics in \<open>SelectServer\<close>.
\<close>

theorem main_blank_servers_flag:
  "Fields '' '' = []
   \<and> main_startup \<lparr>flag_a = None, flag_p = None, flag_s = Some '' ''\<rparr> (\<lambda>port. True) =
       AcceptLoop (PRoundRobin (NewRoundRobin []))
   \<and> handleClient (PRoundRobin (NewRoundRobin [])) (\<lambda>backend. True) 0 1 =
       Inl IndexOutOfRange"
  by (simp add: main_startup_def new_policy_def Fields_def space_width_def white_space_def
      handleClient_def RoundRobin_SelectServer_def NewRoundRobin_def)

text \<open>Backends are split at blanks and at a no-break space (U+00A0) alike.\<close>

lemma Fields_example:
  "Fields ''localhost:8000 localhost:8001 '' = [''localhost:8000'', ''localhost:8001'']"
  by code_simp

lemma Fields_no_break_space:
  "Fields (''h:1'' @ [CHR 0xC2, CHR 0xA0] @ ''h:2'') = [''h:1'', ''h:2'']"
  by code_simp

section \<open>The policy states are those the calls produce\<close>

text \<open>
  Every state that fewer than \<open>2^63 - 1\<close> calls produce from a constructor over a
  non-empty pool is a policy state in the sense of \<open>policy_wf\<close>, and the calls return.
\<close>

lemma LeastConnections_wf_reachable:
  assumes "servers \<noteq> []" and "int (length cs) < max_int"
  shows "\<exists>bs p. run (PLeastConnections (NewLeastConnections servers)) cs =
                  Inr (bs, PLeastConnections p) \<and> policy_wf (PLeastConnections p)"
proof -
  let ?r = "lc_run (NewLeastConnections servers) cs"
  have "lc_bounded (0 + int (length cs)) (snd ?r)"
    using assms(2) by (intro lc_bounded_run lc_bounded_New [OF assms(1)]) simp
  then have "LeastConnections_wf (snd ?r)"
    using assms(2) by (intro lc_bounded_wf) simp_all
  then show ?thesis
    using lc_run_is_run [of "NewLeastConnections servers" cs] by simp
qed

lemma LeastResponseTime_wf_reachable:
  assumes "servers \<noteq> []"
  shows "\<exists>bs p. run (PLeastResponseTime (NewLeastResponseTime servers)) cs =
                  Inr (bs, PLeastResponseTime p) \<and> policy_wf (PLeastResponseTime p)"
  using lrt_run_wf [of "NewLeastResponseTime servers" cs] policy_wf_New(4) [OF assms]
  by simp

lemma RoundRobin_wf_SelectServer:
  assumes "RoundRobin_wf p"
  shows "\<exists>b p'. RoundRobin_SelectServer p = Inr (b, p') \<and> RoundRobin_wf p'"
proof -
  let ?n = "int (length (rr_servers p))"
  have range: "0 \<le> rr_idx p" "rr_idx p < ?n"
    using assms by (simp_all add: RoundRobin_wf_def)
  then have "go_rem (rr_idx p + 1) ?n = (rr_idx p + 1) mod ?n"
    by (intro go_rem_nonneg) auto
  moreover have "0 < ?n"
    using range by linarith
  then have "0 \<le> (rr_idx p + 1) mod ?n" "(rr_idx p + 1) mod ?n < ?n"
    by simp_all
  ultimately show ?thesis
    using range by (simp add: RoundRobin_SelectServer_def RoundRobin_wf_def)
qed

lemma RoundRobin_wf_reachable:
  assumes "RoundRobin_wf p"
  shows "\<exists>bs p'. run (PRoundRobin p) cs = Inr (bs, PRoundRobin p') \<and> RoundRobin_wf p'"
  using assms
proof (induction cs arbitrary: p)
  case Nil
  then show ?case by simp
next
  case (Cons c cs)
  show ?case
  proof (cases c)
    case (Select now)
    obtain b q where sel: "RoundRobin_SelectServer p = Inr (b, q)" and wf: "RoundRobin_wf q"
      using RoundRobin_wf_SelectServer [OF Cons.prems] by blast
    from Cons.IH [OF wf] obtain bs p' where
      "run (PRoundRobin q) cs = Inr (bs, PRoundRobin p')" "RoundRobin_wf p'"
      by blast
    then show ?thesis
      using Select sel by simp
  next
    case (Upd s now)
    then show ?thesis
      using Cons.IH [OF Cons.prems] by (simp add: RoundRobin_Update_def)
  qed
qed

lemma N2One_wf_reachable:
  assumes "N2One_wf p"
  shows "run (PN2One p) cs = Inr (map (\<lambda>c. hd (n2o_servers p)) (filter is_select cs), PN2One p)"
proof (induction cs)
  case Nil
  then show ?case by simp
next
  case (Cons c cs)
  then show ?case
    using assms
    by (cases c; cases "n2o_servers p")
      (simp_all add: N2One_wf_def N2One_SelectServer_def N2One_Update_def)
qed


end
